theory Spec2Isabelle
  imports Complex_Main "HOL-Library.Monad_Syntax" "HOL-Library.Signed_Division"
    "HOL-Library.Multiset"
begin

section \<open>Geometry primitives (cknot.hpp 29-61, cknot.cpp 29-109)\<close>

text \<open>
  A \<open>double\<close> is modelled as a \<open>real\<close>: rounding, infinities and NaN are not
  modelled. The library functions \<open>std::atan2\<close>, \<open>std::atan\<close>, \<open>std::cos\<close>,
  \<open>std::sin\<close>, \<open>std::sqrt\<close>, \<open>std::fabs\<close> and \<open>std::floor\<close> are their
  mathematical counterparts. A failed \<open>assert\<close> is the result \<open>None\<close>.
\<close>

datatype vec2 = vec2 (vec2_x: real) (vec2_y: real)

definition vec2_add :: "vec2 \<Rightarrow> vec2 \<Rightarrow> vec2" where
  "vec2_add u v = vec2 (vec2_x u + vec2_x v) (vec2_y u + vec2_y v)"

definition vec2_sub :: "vec2 \<Rightarrow> vec2 \<Rightarrow> vec2" where
  "vec2_sub u v = vec2 (vec2_x u - vec2_x v) (vec2_y u - vec2_y v)"

definition vec2_mul :: "vec2 \<Rightarrow> real \<Rightarrow> vec2" where
  "vec2_mul u r = vec2 (vec2_x u * r) (vec2_y u * r)"

definition vec2_neg :: "vec2 \<Rightarrow> vec2" where
  "vec2_neg u = vec2 (vec2_x u * (- 1)) (vec2_y u * (- 1))"

text \<open>\<open>vec2::operator==\<close> compares both coordinates: it is the equality of \<^typ>\<open>vec2\<close>.\<close>

definition vec2_less :: "vec2 \<Rightarrow> vec2 \<Rightarrow> bool" where
  "vec2_less u v = (if vec2_x u = vec2_x v then vec2_y u < vec2_y v else vec2_x u < vec2_x v)"

text \<open>\<open>std::atan2 y x\<close>: the angle of the point \<open>(x, y)\<close> in \<open>(-pi, pi]\<close>, and 0 at the origin.\<close>

definition atan2 :: "real \<Rightarrow> real \<Rightarrow> real" where
  "atan2 y x =
     (if 0 < x then arctan (y / x)
      else if x < 0 then (if 0 \<le> y then arctan (y / x) + pi else arctan (y / x) - pi)
      else if 0 < y then pi / 2
      else if y < 0 then - (pi / 2)
      else 0)"

definition GetAngle :: "vec2 \<Rightarrow> real" where
  "GetAngle u = atan2 (vec2_y u) (vec2_x u)"

definition GetLength :: "vec2 \<Rightarrow> real" where
  "GetLength u = (let x2 = vec2_x u * vec2_x u; y2 = vec2_y u * vec2_y u in sqrt (x2 + y2))"

section \<open>Stroke model (cknot.hpp 47-64, cknot.cpp 89-109)\<close>

datatype StrokeType = Cross | Bounce | Glance

datatype Stroke = Stroke (Stroke_a: vec2) (Stroke_b: vec2) (Stroke_type: StrokeType)

text \<open>The two-argument constructor \<open>Stroke(a, b)\<close> sets the type to \<open>Cross\<close>.\<close>

definition Stroke2 :: "vec2 \<Rightarrow> vec2 \<Rightarrow> Stroke" where
  "Stroke2 p q = Stroke p q Cross"

definition Stroke_GetAngle :: "Stroke \<Rightarrow> real" where
  "Stroke_GetAngle s = GetAngle (vec2_sub (Stroke_b s) (Stroke_a s))"

definition Stroke_GetLength :: "Stroke \<Rightarrow> real" where
  "Stroke_GetLength s = GetLength (vec2_sub (Stroke_b s) (Stroke_a s))"

definition GetMid :: "Stroke \<Rightarrow> vec2" where
  "GetMid s =
     (let d = vec2_sub (Stroke_b s) (Stroke_a s);
          h = vec2 (vec2_x d / 2) (vec2_y d / 2)
      in vec2_add (Stroke_a s) h)"

section \<open>Direction algebra (cknot.cpp 148-184)\<close>

datatype Dir = fLeft | fRight | bLeft | bRight

text \<open>
  The three functions end in \<open>default: assert(0)\<close>; an \<open>enum Dir\<close> value outside the
  four tags is excluded by the type, so that branch has no counterpart here.
\<close>

fun BounceDir :: "Dir \<Rightarrow> Dir" where
  "BounceDir fLeft = bLeft"
| "BounceDir fRight = bRight"
| "BounceDir bRight = fRight"
| "BounceDir bLeft = fLeft"

fun CrossDir :: "Dir \<Rightarrow> Dir" where
  "CrossDir fLeft = bRight"
| "CrossDir fRight = bLeft"
| "CrossDir bRight = fLeft"
| "CrossDir bLeft = fRight"

fun GlanceDir :: "Dir \<Rightarrow> Dir" where
  "GlanceDir fLeft = fRight"
| "GlanceDir fRight = fLeft"
| "GlanceDir bRight = bLeft"
| "GlanceDir bLeft = bRight"

text \<open>The order of the enumerators, which \<open>dir < rhs.dir\<close> compares.\<close>

fun Dir_index :: "Dir \<Rightarrow> nat" where
  "Dir_index fLeft = 0"
| "Dir_index fRight = 1"
| "Dir_index bLeft = 2"
| "Dir_index bRight = 3"

section \<open>Nodes and the node set (cknot.cpp 186-210)\<close>

text \<open>
  A \<open>Junction*\<close> is modelled by the position under which the junction is stored in the
  junction map: the constructor of the graph creates one junction per position, stores
  that position in it and never moves it, so two pointers are equal exactly when the
  positions are. Dereferencing a pointer is a lookup in the junction map.
\<close>

record Node =
  mid :: vec2
  dir :: Dir
  type :: StrokeType
  normal :: vec2
  left :: vec2
  right :: vec2

text \<open>
  The constructor \<open>Node(mid, dir)\<close> sets \<open>type\<close> to \<open>Cross\<close>, default-constructs
  \<open>normal\<close> and leaves the two pointers uninitialised.
\<close>

definition Node_new :: "vec2 \<Rightarrow> Dir \<Rightarrow> Node" where
  "Node_new m d =
     \<lparr>mid = m, dir = d, type = Cross, normal = vec2 0 0, left = undefined, right = undefined\<rparr>"

definition Node_less :: "Node \<Rightarrow> Node \<Rightarrow> bool" where
  "Node_less n r =
     (if mid n = mid r then Dir_index (dir n) < Dir_index (dir r) else vec2_less (mid n) (mid r))"

text \<open>
  \<open>std::set<Node>\<close> is a list of nodes kept in ascending order of \<open>Node::operator<\<close>.
  Two nodes are the same element of the set when neither is less than the other.
\<close>

type_synonym NodeSet = "Node list"

definition Node_equiv :: "Node \<Rightarrow> Node \<Rightarrow> bool" where
  "Node_equiv n r = (\<not> Node_less n r \<and> \<not> Node_less r n)"

definition NodeSet_find :: "NodeSet \<Rightarrow> Node \<Rightarrow> Node option" where
  "NodeSet_find s n = List.find (\<lambda>r. Node_equiv r n) s"

definition NodeSet_count :: "NodeSet \<Rightarrow> Node \<Rightarrow> nat" where
  "NodeSet_count s n = (case NodeSet_find s n of None \<Rightarrow> 0 | Some r \<Rightarrow> 1)"

fun NodeSet_insert :: "Node \<Rightarrow> NodeSet \<Rightarrow> NodeSet" where
  "NodeSet_insert n [] = [n]"
| "NodeSet_insert n (r # rs) =
     (if Node_less n r then n # r # rs
      else if Node_less r n then r # NodeSet_insert n rs
      else r # rs)"

definition NodeSet_erase :: "Node \<Rightarrow> NodeSet \<Rightarrow> NodeSet" where
  "NodeSet_erase n s = filter (\<lambda>r. \<not> Node_equiv r n) s"

section \<open>Junctions (cknot.cpp 212-262)\<close>

record Junction =
  position :: vec2
  mids :: "vec2 list"

text \<open>
  \<open>std::find\<close> over a list: the index of the first element equal to \<open>v\<close>, or the length
  of the list (the \<open>end()\<close> iterator) when there is none.
\<close>

fun std_find :: "'a list \<Rightarrow> 'a \<Rightarrow> nat" where
  "std_find [] v = 0"
| "std_find (u # us) v = (if u = v then 0 else Suc (std_find us v))"

definition FindNext :: "Junction \<Rightarrow> vec2 \<Rightarrow> bool \<Rightarrow> vec2" where
  "FindNext J v clockwise =
     (let it = std_find (mids J) v in
      if it \<noteq> length (mids J) then
        (if clockwise then
           (let it1 = it + 1;
                it2 = (if it1 = length (mids J) then 0 else it1)
            in mids J ! it2)
         else
           (let it1 = (if it = 0 then length (mids J) else it)
            in mids J ! (it1 - 1)))
      else v)"

text \<open>\<open>VecAngleComp(point)\<close> compares two vectors by \<open>Stroke(point, v).GetAngle()\<close>.\<close>

definition VecAngle :: "vec2 \<Rightarrow> vec2 \<Rightarrow> real" where
  "VecAngle point v = Stroke_GetAngle (Stroke2 point v)"

text \<open>
  \<open>std::list::sort\<close> is a stable sort; with the comparison \<open>VecAngleComp\<close> it is the
  stable sort by the key \<open>VecAngle\<close>.
\<close>

definition sort_mids :: "Junction \<Rightarrow> Junction" where
  "sort_mids J = J\<lparr>mids := sort_key (VecAngle (position J)) (mids J)\<rparr>"

section \<open>The graph (cknot.cpp 264-332)\<close>

type_synonym JunctionMap = "vec2 \<Rightarrow> Junction option"

record Graph =
  unused :: NodeSet
  junctions :: JunctionMap

text \<open>
  \<open>if (junctions.count(a)) ja = junctions[a]; else junctions[a] = (ja = new Junction);\<close>
\<close>

definition junction_at :: "JunctionMap \<Rightarrow> vec2 \<Rightarrow> Junction" where
  "junction_at js p = (case js p of Some J \<Rightarrow> J | None \<Rightarrow> \<lparr>position = vec2 0 0, mids = []\<rparr>)"

text \<open>The body of the constructor's loop over the strokes (lines 273-321).\<close>

definition Graph_stroke :: "Graph \<Rightarrow> Stroke \<Rightarrow> Graph" where
  "Graph_stroke g0 s =
     (let m = GetMid s;
          d = vec2_sub (Stroke_b s) (Stroke_a s);
          nrm = vec2 (- vec2_y d) (vec2_x d);
          a = Stroke_a s;
          ja = junction_at (junctions g0) a;
          js1 = (junctions g0)(a \<mapsto> ja\<lparr>position := a, mids := mids ja @ [m]\<rparr>);
          b = Stroke_b s;
          jb = junction_at js1 b;
          js2 = js1(b \<mapsto> jb\<lparr>position := b, mids := mids jb @ [m]\<rparr>);
          n = (Node_new m fLeft)\<lparr>normal := nrm, left := a, right := b, type := Stroke_type s\<rparr>;
          u1 = NodeSet_insert n (unused g0);
          u2 = NodeSet_insert (n\<lparr>dir := fRight\<rparr>) u1;
          u3 = NodeSet_insert (n\<lparr>dir := bLeft\<rparr>) u2;
          u4 = NodeSet_insert (n\<lparr>dir := bRight\<rparr>) u3;
          js3 = (\<lambda>p. map_option sort_mids (js2 p))
      in \<lparr>unused = u4, junctions = js3\<rparr>)"

definition Graph_init :: "Stroke list \<Rightarrow> Graph" where
  "Graph_init strokes = foldl Graph_stroke \<lparr>unused = [], junctions = Map.empty\<rparr> strokes"

section \<open>Splines (spline.hpp 287-434, 512-589)\<close>

text \<open>
  The base class \<open>Spline<ST, FT>\<close> with \<open>FT = double\<close>. The knot count \<open>mN\<close> is a
  bit-field of 30 bits, so the constructor stores \<open>n mod 2 ^ 30\<close>. The arrays are
  copied (\<open>copy = true\<close>): \<open>memcpy\<close> reads \<open>n\<close> elements, and reading past the end of
  an array is the result \<open>None\<close>. The cache \<open>mLastIndex\<close> is not initialised by the
  constructor; it is an argument of the evaluation.
\<close>

definition assert :: "bool \<Rightarrow> unit option" where
  "assert c = (if c then Some () else None)"

record 'st Spline =
  mN :: nat
  mLoop :: bool
  mCopy :: bool
  mXs :: "real list"
  mYs :: "'st list"

text \<open>The debug loop of the constructor: \<open>assert(mXs[i] > last); last = mXs[i];\<close>\<close>

fun increasing :: "real \<Rightarrow> real list \<Rightarrow> bool" where
  "increasing l [] = True"
| "increasing l (v # vs) = (v > l \<and> increasing v vs)"

definition Spline_new :: "real list \<Rightarrow> 'st list \<Rightarrow> nat \<Rightarrow> bool \<Rightarrow> bool \<Rightarrow> 'st Spline option" where
  "Spline_new xs ys n loop copy = do {
     let N = n mod 2 ^ 30;
     assert (N > 1);
     assert (n \<le> length xs \<and> n \<le> length ys);
     assert (case take N xs of [] \<Rightarrow> True | v # vs \<Rightarrow> increasing v vs);
     Some \<lparr>mN = N, mLoop = loop, mCopy = copy, mXs = take n xs, mYs = take n ys\<rparr>
   }"

record Hermite = "vec2 Spline" +
  mMs :: "vec2 list"

definition Hermite_new ::
  "real list \<Rightarrow> vec2 list \<Rightarrow> vec2 list \<Rightarrow> nat \<Rightarrow> bool \<Rightarrow> bool \<Rightarrow> Hermite option" where
  "Hermite_new xs ys ms n loop copy = do {
     sp \<leftarrow> Spline_new xs ys n loop copy;
     assert (n \<le> length ms);
     Some (Spline.extend sp \<lparr>mMs = take n ms\<rparr>)
   }"

text \<open>\<open>Spline::Step\<close> is \<open>LocalSpline<Function::NearestNeighbor, double, double>\<close>.\<close>

type_synonym Step = "real Spline"

definition Step_new :: "real list \<Rightarrow> real list \<Rightarrow> nat \<Rightarrow> bool \<Rightarrow> bool \<Rightarrow> Step option" where
  "Step_new xs ys n loop copy = Spline_new xs ys n loop copy"

section \<open>The result (cknot.hpp 67-90, cknot.cpp 112-141)\<close>

record Art =
  mThreads :: "Hermite list"
  mZs :: "Step list"

definition GetThreadCount :: "Art \<Rightarrow> nat" where
  "GetThreadCount art = length (mThreads art)"

text \<open>An index past the end of a \<open>std::vector\<close> is the result \<open>None\<close>, as a failed assertion is.\<close>

definition vector_at :: "'a list \<Rightarrow> nat \<Rightarrow> 'a option" where
  "vector_at v i = (if i < length v then Some (v ! i) else None)"

definition GetThread :: "Art \<Rightarrow> nat \<Rightarrow> Hermite option" where
  "GetThread art index = do { assert (index < GetThreadCount art); vector_at (mThreads art) index }"

definition GetZ :: "Art \<Rightarrow> nat \<Rightarrow> Step option" where
  "GetZ art index = do { assert (index < GetThreadCount art); vector_at (mZs art) index }"

section \<open>The traversal (cknot.cpp 336-512)\<close>

text \<open>
  The local variables of \<open>CreateThread\<close>. The fields \<open>ports\<close> and \<open>visited\<close> are not
  in the source: \<open>ports\<close> lists the nodes erased from \<open>g.unused\<close> while the current
  thread is traced, and \<open>visited\<close> keeps that list for every finished thread.
\<close>

record State =
  g :: Graph
  unusedUp :: NodeSet
  ret :: "Hermite list"
  retZs :: "Step list"
  thread :: "vec2 list"
  angles :: "vec2 list"
  zs :: "real list"
  up :: bool
  cur :: Node
  ports :: "Node list"
  visited :: "Node list list"

definition rot :: real where
  "rot = arctan 1"

text \<open>Lines 370-384: an unused crossing node met from below is remembered in \<open>unusedUp\<close>.\<close>

definition mark_above :: "State \<Rightarrow> State option" where
  "mark_above st =
     (if up st = False \<and> type (cur st) = Cross then
        (let above = (cur st)\<lparr>dir := GlanceDir (dir (cur st))\<rparr> in
         if NodeSet_count (unused (g st)) above \<noteq> 0 then
           (let uu = NodeSet_insert above (unusedUp st);
                above2 = above\<lparr>dir := CrossDir (dir above)\<rparr>
            in do {
              assert (NodeSet_count (unused (g st)) above2 \<noteq> 0);
              Some (st\<lparr>unusedUp := NodeSet_insert above2 uu\<rparr>)
            })
         else Some st)
      else Some st)"

text \<open>
  Lines 388-390 and 405-407:
  \<open>unusedUp.erase(cur); assert(g.unused.count(cur)); g.unused.erase(cur);\<close>
\<close>

definition erase_cur :: "State \<Rightarrow> State option" where
  "erase_cur st = do {
     let uu = NodeSet_erase (cur st) (unusedUp st);
     assert (NodeSet_count (unused (g st)) (cur st) \<noteq> 0);
     Some (st\<lparr>unusedUp := uu,
              g := (g st)\<lparr>unused := NodeSet_erase (cur st) (unused (g st))\<rparr>,
              ports := ports st @ [cur st]\<rparr>)
   }"

text \<open>Line 393: the junction the node is entered from.\<close>

definition entry_junction :: "Node \<Rightarrow> vec2" where
  "entry_junction n = (if dir n = fLeft \<or> dir n = bLeft then left n else right n)"

text \<open>Lines 396-402; the \<open>default: assert(0)\<close> is excluded by the type \<^typ>\<open>StrokeType\<close>.\<close>

definition exit_dir :: "Node \<Rightarrow> Dir" where
  "exit_dir n =
     (case type n of
        Bounce \<Rightarrow> BounceDir (dir n)
      | Cross \<Rightarrow> CrossDir (dir n)
      | Glance \<Rightarrow> GlanceDir (dir n))"

text \<open>Lines 409-454: the thread point and its normal; \<open>cur\<close> is the exit node.\<close>

definition emit :: "State \<Rightarrow> State option" where
  "emit st =
     (let c = cur st;
          isFront = (dir c = fLeft \<or> dir c = fRight);
          isLeft = (dir c = fLeft \<or> dir c = bLeft)
      in
      if type c = Cross then
        (let t0 = GetAngle (normal c);
             t = (case dir c of
                    fLeft \<Rightarrow> t0 + rot * 1
                  | bLeft \<Rightarrow> t0 + rot * 3
                  | bRight \<Rightarrow> t0 - rot * 3
                  | fRight \<Rightarrow> t0 - rot);
             n1 = vec2_mul (vec2 (cos t) (sin t)) (GetLength (normal c));
             n2 = vec2_mul n1 1.3
         in Some (st\<lparr>up := \<not> up st, thread := thread st @ [mid c], angles := angles st @ [n2]\<rparr>))
      else if type c = Glance then
        do {
          let offset = vec2_mul (normal c) (if isFront then 0.25 else - 0.25);
          L \<leftarrow> junctions (g st) (left c);
          R \<leftarrow> junctions (g st) (right c);
          let n1 = vec2_mul (vec2_sub (position L) (position R)) (if isLeft then 0.3 else - 0.3);
          Some (st\<lparr>thread := thread st @ [vec2_add (mid c) offset], angles := angles st @ [n1]\<rparr>)
        }
      else if type c = Bounce then
        do {
          L \<leftarrow> junctions (g st) (left c);
          R \<leftarrow> junctions (g st) (right c);
          let offset = vec2_mul (vec2_sub (position L) (position R)) (if isLeft then 0.25 else - 0.25);
          let n1 = vec2_mul (normal c) (if isFront then 0.3 else - 0.3);
          Some (st\<lparr>thread := thread st @ [vec2_add (mid c) offset], angles := angles st @ [n1]\<rparr>)
        }
      else Some st)"

text \<open>Lines 456-457: \<open>c\<close> is the exit node, \<open>j\<close> the junction the node was entered from.\<close>

definition exit_junction :: "Node \<Rightarrow> vec2 \<Rightarrow> vec2" where
  "exit_junction c j = (if type c \<noteq> Bounce then (if j = right c then left c else right c) else j)"

text \<open>Line 459.\<close>

definition is_clockwise :: "Dir \<Rightarrow> bool" where
  "is_clockwise d = (d = fLeft \<or> d = bRight)"

text \<open>
  Lines 462-491: the node the thread continues with; \<open>None\<close> is the \<open>break\<close> that ends
  the thread.
\<close>

definition next_node :: "NodeSet \<Rightarrow> vec2 \<Rightarrow> vec2 \<Rightarrow> bool \<Rightarrow> Node option" where
  "next_node u nxt j clockwise =
     (let d = (if clockwise then fRight else bRight);
          n = Node_new nxt d
      in
      case NodeSet_find u n of
        None \<Rightarrow> NodeSet_find u (n\<lparr>dir := CrossDir d\<rparr>)
      | Some r \<Rightarrow>
          (if right r \<noteq> j then
             (let r1 = r\<lparr>dir := CrossDir (dir r)\<rparr> in
              if NodeSet_count u r1 = 0 then None else Some r1)
           else Some r))"

text \<open>
  The body of the inner loop (lines 368-491). The result holds the state after the body
  and whether the loop goes on (\<open>False\<close> after a \<open>break\<close>).
\<close>

definition visit :: "State \<Rightarrow> (State \<times> bool) option" where
  "visit st0 = do {
     let st1 = st0\<lparr>zs := zs st0 @ [if up st0 then 1 else 0]\<rparr>;
     st2 \<leftarrow> mark_above st1;
     st3 \<leftarrow> erase_cur st2;
     let j = entry_junction (cur st3);
     let st4 = st3\<lparr>cur := (cur st3)\<lparr>dir := exit_dir (cur st3)\<rparr>\<rparr>;
     st5 \<leftarrow> erase_cur st4;
     st6 \<leftarrow> emit st5;
     let j1 = exit_junction (cur st6) j;
     let clockwise = is_clockwise (dir (cur st6));
     J \<leftarrow> junctions (g st6) j1;
     let nxt = FindNext J (mid (cur st6)) clockwise;
     (case next_node (unused (g st6)) nxt j1 clockwise of
        None \<Rightarrow> Some (st6, False)
      | Some n \<Rightarrow> Some (st6\<lparr>cur := n\<rparr>, True))
   }"

lemma vec2_less_irrefl: "\<not> vec2_less u u"
  by (simp add: vec2_less_def)

lemma vec2_less_trans: "vec2_less u v \<Longrightarrow> vec2_less v w \<Longrightarrow> vec2_less u w"
  by (auto simp: vec2_less_def split: if_splits)

lemma vec2_less_total: "u \<noteq> v \<Longrightarrow> vec2_less u v \<or> vec2_less v u"
  by (cases u; cases v) (auto simp: vec2_less_def)

lemma vec2_less_asym: "vec2_less u v \<Longrightarrow> \<not> vec2_less v u"
  by (auto simp: vec2_less_def split: if_splits)

lemma Dir_index_inj: "Dir_index d = Dir_index e \<Longrightarrow> d = e"
  by (cases d; cases e) simp_all

lemma Node_less_irrefl: "\<not> Node_less n n"
  by (simp add: Node_less_def)

lemma Node_less_trans: "Node_less n r \<Longrightarrow> Node_less r t \<Longrightarrow> Node_less n t"
  unfolding Node_less_def
  by (auto split: if_splits dest: vec2_less_trans simp: vec2_less_irrefl) 

lemma Node_equiv_iff: "Node_equiv n r \<longleftrightarrow> mid n = mid r \<and> dir n = dir r"
  unfolding Node_equiv_def Node_less_def
  using vec2_less_total[of "mid n" "mid r"] Dir_index_inj[of "dir n" "dir r"]
  by (auto simp: vec2_less_irrefl)

lemma NodeSet_find_Some: "NodeSet_find s n = Some r \<Longrightarrow> r \<in> set s \<and> mid r = mid n \<and> dir r = dir n"
  unfolding NodeSet_find_def by (auto simp: find_Some_iff Node_equiv_iff)

lemma NodeSet_find_None: "NodeSet_find s n = None \<longleftrightarrow> (\<forall>r\<in>set s. \<not> (mid r = mid n \<and> dir r = dir n))"
  unfolding NodeSet_find_def by (auto simp: find_None_iff Node_equiv_iff)

lemma NodeSet_count_pos: "NodeSet_count s n \<noteq> 0 \<longleftrightarrow> (\<exists>r\<in>set s. mid r = mid n \<and> dir r = dir n)"
  unfolding NodeSet_count_def using NodeSet_find_None[of s n]
  by (auto split: option.splits)

lemma NodeSet_count_zero: "NodeSet_count s n = 0 \<longleftrightarrow> (\<forall>r\<in>set s. \<not> (mid r = mid n \<and> dir r = dir n))"
  using NodeSet_count_pos[of s n] by blast

lemma set_NodeSet_erase: "set (NodeSet_erase n s) = {r \<in> set s. \<not> (mid r = mid n \<and> dir r = dir n)}"
  by (auto simp: NodeSet_erase_def Node_equiv_iff)

lemma length_NodeSet_erase_le: "length (NodeSet_erase n s) \<le> length s"
  by (simp add: NodeSet_erase_def)

lemma length_NodeSet_erase_less:
  "NodeSet_count s n \<noteq> 0 \<Longrightarrow> length (NodeSet_erase n s) < length s"
  unfolding NodeSet_erase_def NodeSet_count_pos
  by (rule length_filter_less[where x = "SOME r. r \<in> set s \<and> mid r = mid n \<and> dir r = dir n"])
     (auto simp: Node_equiv_iff intro: someI2_ex)

lemma mark_above_g: "mark_above st = Some st' \<Longrightarrow> g st' = g st"
  by (auto simp: mark_above_def Let_def assert_def split: if_splits bind_splits)

lemma emit_g: "emit st = Some st' \<Longrightarrow> g st' = g st"
  by (auto simp: emit_def Let_def split: if_splits bind_splits)

lemma erase_cur_length:
  "erase_cur st = Some st' \<Longrightarrow> length (unused (g st')) < length (unused (g st))"
  by (auto simp: erase_cur_def Let_def assert_def length_NodeSet_erase_less split: if_splits bind_splits)

lemma visit_shrinks:
  assumes "visit st = Some (st', c)"
  shows "length (unused (g st')) < length (unused (g st))"
proof -
  from assms obtain st2 st3 st5 st6 where
    m: "mark_above (st\<lparr>zs := zs st @ [if up st then 1 else 0]\<rparr>) = Some st2" and
    e1: "erase_cur st2 = Some st3" and
    e2: "erase_cur (st3\<lparr>cur := (cur st3)\<lparr>dir := exit_dir (cur st3)\<rparr>\<rparr>) = Some st5" and
    em: "emit st5 = Some st6" and
    fin: "g st' = g st6"
    by (auto simp: visit_def Let_def split: bind_splits option.splits)
  have "length (unused (g st6)) = length (unused (g st5))" using emit_g[OF em] by simp
  also have "\<dots> < length (unused (g st3))" using erase_cur_length[OF e2] by simp
  also have "\<dots> < length (unused (g st2))" using erase_cur_length[OF e1] .
  also have "\<dots> = length (unused (g st))" using mark_above_g[OF m] by simp
  finally show ?thesis using fin by simp
qed

function trace :: "State \<Rightarrow> State option" where
  "trace st =
     (case visit st of
        None \<Rightarrow> None
      | Some (st', continue) \<Rightarrow> if continue then trace st' else Some st')"
  by pat_completeness auto
termination
  by (relation "measure (\<lambda>st. length (unused (g st)))") (auto dest: visit_shrinks)


text \<open>\<open>*s.begin()\<close>: the least node of the set; on an empty set it is the result \<open>None\<close>.\<close>

definition NodeSet_begin :: "NodeSet \<Rightarrow> Node option" where
  "NodeSet_begin s = (case s of [] \<Rightarrow> None | n # ns \<Rightarrow> Some n)"

text \<open>Lines 349-364: a new thread begins.\<close>

definition begin_thread :: "State \<Rightarrow> State option" where
  "begin_thread st = do {
     c \<leftarrow> (if length (unusedUp st) \<noteq> 0 then NodeSet_begin (unusedUp st)
           else NodeSet_begin (unused (g st)));
     Some (st\<lparr>thread := [], angles := [], zs := [], ports := [],
              up := (if length (unusedUp st) \<noteq> 0 then True else False),
              cur := c\<rparr>)
   }"

text \<open>\<open>v.front()\<close> of an empty vector is the result \<open>None\<close>.\<close>

definition front :: "'a list \<Rightarrow> 'a option" where
  "front v = (case v of [] \<Rightarrow> None | e # es \<Rightarrow> Some e)"

text \<open>Lines 495-508: the thread is closed and packed into its two curves.\<close>

definition finish :: "State \<Rightarrow> State option" where
  "finish st = do {
     let frames = length (thread st);
     let xs = map (\<lambda>i. real i / real frames) [0..<frames] @ [1];
     t0 \<leftarrow> front (thread st);
     a0 \<leftarrow> front (angles st);
     z0 \<leftarrow> front (zs st);
     let thread1 = thread st @ [t0];
     let angles1 = angles st @ [a0];
     let zs1 = zs st @ [z0];
     T \<leftarrow> Hermite_new xs thread1 angles1 (frames + 1) True True;
     Z \<leftarrow> Step_new xs zs1 (frames + 1) True True;
     Some (st\<lparr>thread := thread1, angles := angles1, zs := zs1,
              ret := ret st @ [T], retZs := retZs st @ [Z],
              visited := visited st @ [ports st]\<rparr>)
   }"

text \<open>The body of the outer loop (lines 349-508).\<close>

definition one_thread :: "State \<Rightarrow> State option" where
  "one_thread st = do { st1 \<leftarrow> begin_thread st; st2 \<leftarrow> trace st1; finish st2 }"

text \<open>Line 347: \<open>g.unused.size() || unusedUp.size()\<close>.\<close>

definition more_threads :: "State \<Rightarrow> bool" where
  "more_threads st = (length (unused (g st)) \<noteq> 0 \<or> length (unusedUp st) \<noteq> 0)"

lemma set_NodeSet_insert_subset: "set (NodeSet_insert n s) \<subseteq> insert n (set s)"
  by (induction s) auto

lemma set_NodeSet_insert_sup: "set s \<subseteq> set (NodeSet_insert n s)"
  by (induction s) auto

lemma sorted_NodeSet_insert:
  "sorted_wrt Node_less s \<Longrightarrow> sorted_wrt Node_less (NodeSet_insert n s)"
proof (induction s)
  case Nil
  then show ?case by simp
next
  case (Cons r rs)
  have "\<And>t. t \<in> set (NodeSet_insert n rs) \<Longrightarrow> Node_less r n \<Longrightarrow> Node_less r t"
    using Cons.prems set_NodeSet_insert_subset[of n rs] by auto
  with Cons show ?case
    by (auto dest: Node_less_trans)
qed

lemma sorted_NodeSet_erase:
  "sorted_wrt Node_less s \<Longrightarrow> sorted_wrt Node_less (NodeSet_erase n s)"
  by (simp add: NodeSet_erase_def sorted_wrt_filter)

lemma sorted_nodes_distinct: "sorted_wrt Node_less s \<Longrightarrow> distinct s"
  by (induction s) (auto simp: Node_less_irrefl)

lemma sorted_nodes_key:
  "sorted_wrt Node_less s \<Longrightarrow> n \<in> set s \<Longrightarrow> r \<in> set s \<Longrightarrow> mid n = mid r \<Longrightarrow> dir n = dir r
     \<Longrightarrow> n = r"
proof (induction s)
  case Nil
  then show ?case by simp
next
  case (Cons t ts)
  have "\<And>v. v \<in> set ts \<Longrightarrow> \<not> (mid v = mid t \<and> dir v = dir t)"
    using Cons.prems(1) by (auto simp: Node_less_def)
  with Cons show ?case by (metis set_ConsD sorted_wrt.simps(2))
qed

lemma NodeSet_insert_present:
  "sorted_wrt Node_less s \<Longrightarrow> r \<in> set s \<Longrightarrow> mid r = mid n \<Longrightarrow> dir r = dir n
     \<Longrightarrow> NodeSet_insert n s = s"
proof (induction s)
  case Nil
  then show ?case by simp
next
  case (Cons t ts)
  show ?case
  proof (cases "r = t")
    case True
    then show ?thesis using Cons.prems by (simp add: Node_less_def)
  next
    case False
    then have rin: "r \<in> set ts" using Cons.prems by simp
    then have "Node_less t r" using Cons.prems(1) by simp
    then have "Node_less t n" "\<not> Node_less n t"
      using Cons.prems(3,4) by (auto simp: Node_less_def split: if_splits dest: vec2_less_asym)
    then show ?thesis using Cons rin by simp
  qed
qed

lemma NodeSet_insert_absent:
  "\<forall>r\<in>set s. \<not> (mid r = mid n \<and> dir r = dir n) \<Longrightarrow>
     set (NodeSet_insert n s) = insert n (set s) \<and> length (NodeSet_insert n s) = Suc (length s)"
proof (induction s)
  case Nil
  then show ?case by simp
next
  case (Cons t ts)
  then have "Node_less n t \<or> Node_less t n"
    using Node_equiv_iff[of n t] by (auto simp: Node_equiv_def)
  with Cons show ?case by auto
qed

lemma hd_sorted_nodes_least:
  "sorted_wrt Node_less (n # ns) \<Longrightarrow> r \<in> set (n # ns) \<Longrightarrow> \<not> Node_less r n"
  by (auto simp: Node_less_irrefl dest: Node_less_trans)

definition nodes_uniform :: "NodeSet \<Rightarrow> bool" where
  "nodes_uniform u = (\<forall>n\<in>set u. \<forall>r\<in>set u. mid n = mid r \<longrightarrow> r = n\<lparr>dir := dir r\<rparr>)"

definition nodes_paired :: "NodeSet \<Rightarrow> bool" where
  "nodes_paired u = (\<forall>n\<in>set u. n\<lparr>dir := exit_dir n\<rparr> \<in> set u)"

definition nodes_full :: "NodeSet \<Rightarrow> bool" where
  "nodes_full u = (\<forall>n\<in>set u. \<forall>d. n\<lparr>dir := d\<rparr> \<in> set u)"

definition node_linked :: "JunctionMap \<Rightarrow> Node \<Rightarrow> bool" where
  "node_linked js n =
     (\<exists>L R. js (left n) = Some L \<and> js (right n) = Some R \<and>
            mid n \<in> set (mids L) \<and> mid n \<in> set (mids R))"

definition junctions_sorted :: "JunctionMap \<Rightarrow> bool" where
  "junctions_sorted js =
     (\<forall>p J. js p = Some J \<longrightarrow> position J = p \<and> sorted (map (VecAngle p) (mids J)))"

definition stroke_node :: "Stroke \<Rightarrow> Dir \<Rightarrow> Node" where
  "stroke_node s d =
     \<lparr>mid = GetMid s, dir = d, type = Stroke_type s,
      normal = vec2 (- vec2_y (vec2_sub (Stroke_b s) (Stroke_a s)))
                    (vec2_x (vec2_sub (Stroke_b s) (Stroke_a s))),
      left = Stroke_a s, right = Stroke_b s\<rparr>"

lemma nodes_full_paired: "nodes_full u \<Longrightarrow> nodes_paired u"
  by (simp add: nodes_full_def nodes_paired_def)

lemma Graph_stroke_unused:
  "unused (Graph_stroke G s) =
     NodeSet_insert (stroke_node s bRight) (NodeSet_insert (stroke_node s bLeft)
       (NodeSet_insert (stroke_node s fRight) (NodeSet_insert (stroke_node s fLeft) (unused G))))"
  by (simp add: Graph_stroke_def Let_def stroke_node_def Node_new_def)

lemma sort_mids_simps [simp]:
  "position (sort_mids J) = position J" "set (mids (sort_mids J)) = set (mids J)"
  "position J = p \<Longrightarrow> sorted (map (VecAngle p) (mids (sort_mids J)))"
  by (auto simp: sort_mids_def)

lemma Graph_stroke_junctions_old:
  assumes "junctions G p = Some J"
  shows "\<exists>J'. junctions (Graph_stroke G s) p = Some J' \<and> set (mids J) \<subseteq> set (mids J')"
  using assms by (auto simp: Graph_stroke_def Let_def junction_at_def)

lemma Graph_stroke_junctions_new:
  "\<exists>A B. junctions (Graph_stroke G s) (Stroke_a s) = Some A \<and> GetMid s \<in> set (mids A) \<and>
         junctions (Graph_stroke G s) (Stroke_b s) = Some B \<and> GetMid s \<in> set (mids B)"
  by (auto simp: Graph_stroke_def Let_def junction_at_def)

lemma Graph_stroke_junctions_sorted:
  assumes "junctions_sorted (junctions G)"
  shows "junctions_sorted (junctions (Graph_stroke G s))"
  using assms unfolding junctions_sorted_def
  by (auto simp: Graph_stroke_def Let_def junction_at_def split: if_splits)

lemma node_linked_stroke:
  assumes "node_linked (junctions G) n"
  shows "node_linked (junctions (Graph_stroke G s)) n"
proof -
  from assms obtain L R where
    L: "junctions G (left n) = Some L" "mid n \<in> set (mids L)" and
    R: "junctions G (right n) = Some R" "mid n \<in> set (mids R)"
    by (auto simp: node_linked_def)
  from Graph_stroke_junctions_old[OF L(1), of s] Graph_stroke_junctions_old[OF R(1), of s] L(2) R(2)
  show ?thesis unfolding node_linked_def by blast
qed

lemma node_linked_new: "node_linked (junctions (Graph_stroke G s)) (stroke_node s d)"
  using Graph_stroke_junctions_new[of G s]
  by (auto simp: node_linked_def stroke_node_def)

lemma stroke_node_simps [simp]:
  "mid (stroke_node s d) = GetMid s" "dir (stroke_node s d) = d"
  "type (stroke_node s d) = Stroke_type s"
  "left (stroke_node s d) = Stroke_a s" "right (stroke_node s d) = Stroke_b s"
  "(stroke_node s d)\<lparr>dir := e\<rparr> = stroke_node s e"
  by (simp_all add: stroke_node_def)

lemma Dir_UNIV: "(UNIV :: Dir set) = {fLeft, fRight, bLeft, bRight}"
  using Dir.exhaust by auto

lemma insert4_present:
  assumes that: "u = unused G" and srt: "sorted_wrt Node_less u" and full: "nodes_full u"
    and r: "r \<in> set u" "mid r = GetMid s"
  shows "unused (Graph_stroke G s) = unused G"
proof -
  have "\<And>d. NodeSet_insert (stroke_node s d) u = u"
  proof -
    fix d
    have "r\<lparr>dir := d\<rparr> \<in> set u" using full r(1) by (simp add: nodes_full_def)
    then show "NodeSet_insert (stroke_node s d) u = u"
      using NodeSet_insert_present[OF srt, of "r\<lparr>dir := d\<rparr>" "stroke_node s d"] r(2) by simp
  qed
  then show ?thesis using that by (simp add: Graph_stroke_unused)
qed

lemma insert4_absent:
  assumes "\<forall>r\<in>set (unused G). mid r \<noteq> GetMid s"
  shows "set (unused (Graph_stroke G s)) = set (unused G) \<union> range (stroke_node s) \<and>
         length (unused (Graph_stroke G s)) = length (unused G) + 4"
proof -
  define u1 where "u1 = NodeSet_insert (stroke_node s fLeft) (unused G)"
  define u2 where "u2 = NodeSet_insert (stroke_node s fRight) u1"
  define u3 where "u3 = NodeSet_insert (stroke_node s bLeft) u2"
  define u4 where "u4 = NodeSet_insert (stroke_node s bRight) u3"
  have 1: "set u1 = insert (stroke_node s fLeft) (set (unused G)) \<and> length u1 = Suc (length (unused G))"
    unfolding u1_def using assms by (intro NodeSet_insert_absent) auto
  have 2: "set u2 = insert (stroke_node s fRight) (set u1) \<and> length u2 = Suc (length u1)"
    unfolding u2_def using assms 1 by (intro NodeSet_insert_absent) auto
  have 3: "set u3 = insert (stroke_node s bLeft) (set u2) \<and> length u3 = Suc (length u2)"
    unfolding u3_def using assms 1 2 by (intro NodeSet_insert_absent) auto
  have 4: "set u4 = insert (stroke_node s bRight) (set u3) \<and> length u4 = Suc (length u3)"
    unfolding u4_def using assms 1 2 3 by (intro NodeSet_insert_absent) auto
  have "unused (Graph_stroke G s) = u4"
    by (simp add: Graph_stroke_unused u1_def u2_def u3_def u4_def)
  moreover have "range (stroke_node s) =
     {stroke_node s fLeft, stroke_node s fRight, stroke_node s bLeft, stroke_node s bRight}"
    by (auto simp: Dir_UNIV image_def)
  ultimately show ?thesis using 1 2 3 4 by auto
qed

lemma sorted_Graph_stroke:
  "sorted_wrt Node_less (unused G) \<Longrightarrow> sorted_wrt Node_less (unused (Graph_stroke G s))"
  by (simp add: Graph_stroke_unused sorted_NodeSet_insert)

definition graph_inv :: "Stroke list \<Rightarrow> Graph \<Rightarrow> bool" where
  "graph_inv strokes G =
     (sorted_wrt Node_less (unused G) \<and> nodes_uniform (unused G) \<and> nodes_full (unused G) \<and>
      (\<forall>n\<in>set (unused G). node_linked (junctions G) n) \<and>
      junctions_sorted (junctions G) \<and>
      mid ` set (unused G) = GetMid ` set strokes \<and>
      length (unused G) = 4 * card (GetMid ` set strokes))"

lemma graph_inv_step:
  assumes inv: "graph_inv strokes G"
  shows "graph_inv (strokes @ [s]) (Graph_stroke G s)"
proof (cases "GetMid s \<in> mid ` set (unused G)")
  case True
  then obtain r where r: "r \<in> set (unused G)" "mid r = GetMid s" by auto
  have same: "unused (Graph_stroke G s) = unused G"
    using insert4_present[OF refl _ _ r] inv by (simp add: graph_inv_def)
  have "GetMid ` set (strokes @ [s]) = GetMid ` set strokes"
    using True inv by (auto simp: graph_inv_def)
  then show ?thesis
    using inv same node_linked_stroke[of G _ s] Graph_stroke_junctions_sorted[of G s]
    by (simp add: graph_inv_def)
next
  case False
  then have abs: "\<forall>r\<in>set (unused G). mid r \<noteq> GetMid s" by (metis imageI)
  note i4 = insert4_absent[OF abs]
  have notin: "GetMid s \<notin> GetMid ` set strokes" using False inv by (simp add: graph_inv_def)
  have card: "card (GetMid ` set (strokes @ [s])) = Suc (card (GetMid ` set strokes))"
    using notin by simp
  have uni: "nodes_uniform (unused (Graph_stroke G s))"
    using inv abs i4 unfolding nodes_uniform_def graph_inv_def by auto
  have full: "nodes_full (unused (Graph_stroke G s))"
    using inv i4 unfolding nodes_full_def graph_inv_def by auto
  have lnk: "\<forall>n\<in>set (unused (Graph_stroke G s)). node_linked (junctions (Graph_stroke G s)) n"
    using inv i4 node_linked_stroke[of G _ s] node_linked_new[of G s]
    unfolding graph_inv_def by auto
  have "mid ` range (stroke_node s) = {GetMid s}"
    by (simp add: image_image)
  then have mids: "mid ` set (unused (Graph_stroke G s)) = GetMid ` set (strokes @ [s])"
    using inv i4 unfolding graph_inv_def by (simp add: image_Un)
  show ?thesis
    unfolding graph_inv_def
    using inv sorted_Graph_stroke[of G s] Graph_stroke_junctions_sorted[of G s] uni full lnk mids card i4
    by (simp add: graph_inv_def)
qed

lemma graph_inv_init: "graph_inv strokes (Graph_init strokes)"
proof (induction strokes rule: rev_induct)
  case Nil
  then show ?case
    by (simp add: Graph_init_def graph_inv_def nodes_uniform_def nodes_full_def junctions_sorted_def)
next
  case (snoc s strokes)
  then show ?case using graph_inv_step[of strokes "Graph_init strokes" s]
    by (simp add: Graph_init_def)
qed

definition trav_inv :: "State \<Rightarrow> bool" where
  "trav_inv st =
     (sorted_wrt Node_less (unused (g st)) \<and> nodes_uniform (unused (g st)) \<and>
      nodes_paired (unused (g st)) \<and>
      (\<forall>n\<in>set (unused (g st)). node_linked (junctions (g st)) n) \<and>
      sorted_wrt Node_less (unusedUp st) \<and> set (unusedUp st) \<subseteq> set (unused (g st)))"

lemma NodeSet_count_gt: "0 < NodeSet_count s n \<longleftrightarrow> (\<exists>r\<in>set s. mid r = mid n \<and> dir r = dir n)"
  using NodeSet_count_pos[of s n] by simp

lemma exit_dir_neq: "exit_dir n \<noteq> dir n"
  by (cases "type n"; cases "dir n") (simp_all add: exit_dir_def)

lemma exit_dir_invol: "exit_dir (n\<lparr>dir := exit_dir n\<rparr>) = dir n"
  by (cases "type n"; cases "dir n") (simp_all add: exit_dir_def)

lemma exit_dir_inj:
  "type n = type r \<Longrightarrow> exit_dir n = exit_dir r \<Longrightarrow> dir n = dir r"
  by (cases "type n"; cases "dir n"; cases "dir r") (simp_all add: exit_dir_def)

lemma node_linked_dir [simp]: "node_linked js (n\<lparr>dir := d\<rparr>) = node_linked js n"
  by (simp add: node_linked_def)

lemma uniform_member:
  "nodes_uniform u \<Longrightarrow> n \<in> set u \<Longrightarrow> r \<in> set u \<Longrightarrow> mid r = mid n \<Longrightarrow> r = n\<lparr>dir := dir r\<rparr>"
  by (auto simp: nodes_uniform_def)

lemma uniform_count:
  assumes "nodes_uniform u" "n \<in> set u" "NodeSet_count u (n\<lparr>dir := d\<rparr>) \<noteq> 0"
  shows "n\<lparr>dir := d\<rparr> \<in> set u"
proof -
  from assms(3) obtain r where r: "r \<in> set u" "mid r = mid n" "dir r = d"
    by (auto simp: NodeSet_count_gt)
  with uniform_member[OF assms(1,2) r(1)] show ?thesis by auto
qed

lemma member_count: "n \<in> set u \<Longrightarrow> NodeSet_count u n \<noteq> 0"
  by (auto simp: NodeSet_count_gt)

lemma nodes_uniform_erase: "nodes_uniform u \<Longrightarrow> nodes_uniform (NodeSet_erase n u)"
  by (auto simp: nodes_uniform_def set_NodeSet_erase)

lemma nodes_paired_erase2:
  assumes uni: "nodes_uniform u" and pr: "nodes_paired u" and c: "c \<in> set u"
  shows "nodes_paired (NodeSet_erase (c\<lparr>dir := exit_dir c\<rparr>) (NodeSet_erase c u))"
  unfolding nodes_paired_def
proof
  fix n assume n: "n \<in> set (NodeSet_erase (c\<lparr>dir := exit_dir c\<rparr>) (NodeSet_erase c u))"
  then have nu: "n \<in> set u" and n1: "\<not> (mid n = mid c \<and> dir n = dir c)"
    and n2: "\<not> (mid n = mid c \<and> dir n = exit_dir c)"
    by (auto simp: set_NodeSet_erase)
  have n': "n\<lparr>dir := exit_dir n\<rparr> \<in> set u" using pr nu by (simp add: nodes_paired_def)
  have "\<not> (mid n = mid c \<and> (exit_dir n = dir c \<or> exit_dir n = exit_dir c))"
  proof
    assume a: "mid n = mid c \<and> (exit_dir n = dir c \<or> exit_dir n = exit_dir c)"
    then have eq: "n = c\<lparr>dir := dir n\<rparr>" using uniform_member[OF uni c nu] by simp
    then have ty: "type n = type c" by (metis Node.select_convs(3) Node.surjective Node.update_convs(2))
    from a show False
    proof (elim conjE disjE)
      assume "exit_dir n = dir c" "mid n = mid c"
      then have "exit_dir c = dir n"
        using exit_dir_invol[of n] eq by (metis Node.surjective Node.update_convs(2))
      with n2 \<open>mid n = mid c\<close> show False by simp
    next
      assume "exit_dir n = exit_dir c" "mid n = mid c"
      with exit_dir_inj[OF ty] n1 show False by simp
    qed
  qed
  then show "n\<lparr>dir := exit_dir n\<rparr> \<in> set (NodeSet_erase (c\<lparr>dir := exit_dir c\<rparr>) (NodeSet_erase c u))"
    using n' by (auto simp: set_NodeSet_erase)
qed

lemma paired_member: "nodes_paired u \<Longrightarrow> n \<in> set u \<Longrightarrow> n\<lparr>dir := exit_dir n\<rparr> \<in> set u"
  by (simp add: nodes_paired_def)

lemma mark_above_ok:
  assumes inv: "trav_inv st" and c: "cur st \<in> set (unused (g st))"
  obtains uu where "mark_above st = Some (st\<lparr>unusedUp := uu\<rparr>)"
    "sorted_wrt Node_less uu" "set uu \<subseteq> set (unused (g st))"
proof (cases "up st = False \<and> type (cur st) = Cross \<and>
    NodeSet_count (unused (g st)) ((cur st)\<lparr>dir := GlanceDir (dir (cur st))\<rparr>) \<noteq> 0")
  case False
  then have "mark_above st = Some (st\<lparr>unusedUp := unusedUp st\<rparr>)"
    by (auto simp: mark_above_def Let_def)
  then show ?thesis using that[of "unusedUp st"] inv by (simp add: trav_inv_def)
next
  case True
  define above where "above = (cur st)\<lparr>dir := GlanceDir (dir (cur st))\<rparr>"
  define above2 where "above2 = above\<lparr>dir := CrossDir (dir above)\<rparr>"
  have uni: "nodes_uniform (unused (g st))" and pr: "nodes_paired (unused (g st))"
    using inv by (simp_all add: trav_inv_def)
  have a1: "above \<in> set (unused (g st))"
    unfolding above_def using uniform_count[OF uni c] True by simp
  have "exit_dir above = CrossDir (dir above)"
    using True by (simp add: exit_dir_def above_def)
  then have a2: "above2 \<in> set (unused (g st))"
    using paired_member[OF pr a1] by (simp add: above2_def)
  define uu where "uu = NodeSet_insert above2 (NodeSet_insert above (unusedUp st))"
  have "mark_above st = Some (st\<lparr>unusedUp := uu\<rparr>)"
    using True member_count[OF a2]
    by (simp add: mark_above_def Let_def assert_def uu_def above_def above2_def)
  moreover have "sorted_wrt Node_less uu"
    using inv by (simp add: uu_def trav_inv_def sorted_NodeSet_insert)
  moreover have "set uu \<subseteq> set (unused (g st))"
    using inv a1 a2 set_NodeSet_insert_subset[of above2 "NodeSet_insert above (unusedUp st)"]
      set_NodeSet_insert_subset[of above "unusedUp st"]
    by (auto simp: uu_def trav_inv_def)
  ultimately show ?thesis using that by blast
qed

lemma erase_cur_ok:
  assumes "cur st \<in> set (unused (g st))"
  shows "erase_cur st = Some (st\<lparr>unusedUp := NodeSet_erase (cur st) (unusedUp st),
           g := (g st)\<lparr>unused := NodeSet_erase (cur st) (unused (g st))\<rparr>,
           ports := ports st @ [cur st]\<rparr>)"
  using member_count[OF assms] by (simp add: erase_cur_def assert_def)

lemma emit_fields:
  assumes "emit st = Some st'"
  shows "st' = st\<lparr>up := up st', thread := thread st', angles := angles st'\<rparr>"
    "up st' = (if type (cur st) = Cross then \<not> up st else up st)"
    "\<exists>t. thread st' = thread st @ [t]" "\<exists>a. angles st' = angles st @ [a]"
  using assms
  by (cases "type (cur st)"; auto simp: emit_def Let_def split: bind_splits)+

lemma emit_ok:
  assumes "node_linked (junctions (g st)) (cur st)"
  shows "\<exists>st'. emit st = Some st'"
proof -
  from assms obtain L R where "junctions (g st) (left (cur st)) = Some L"
    "junctions (g st) (right (cur st)) = Some R"
    by (auto simp: node_linked_def)
  then show ?thesis
    by (cases "type (cur st)") (simp_all add: emit_def Let_def)
qed

lemma next_node_member:
  assumes "nodes_uniform u" "next_node u nxt j k = Some n"
  shows "n \<in> set u"
proof (cases "NodeSet_find u (Node_new nxt (if k then fRight else bRight))")
  case None
  then show ?thesis using assms(2) by (auto simp: next_node_def Let_def dest: NodeSet_find_Some)
next
  case (Some r)
  then have r: "r \<in> set u" by (auto dest: NodeSet_find_Some)
  show ?thesis
  proof (cases "right r \<noteq> j")
    case True
    then have "NodeSet_count u (r\<lparr>dir := CrossDir (dir r)\<rparr>) \<noteq> 0" "n = r\<lparr>dir := CrossDir (dir r)\<rparr>"
      using assms(2) Some by (auto simp: next_node_def Let_def split: if_splits)
    then show ?thesis using uniform_count[OF assms(1) r] by simp
  next
    case False
    then show ?thesis using assms(2) Some r by (simp add: next_node_def Let_def)
  qed
qed

lemma next_node_mid:
  assumes "next_node u nxt j k = Some n"
  shows "mid n = nxt"
  using assms
  by (auto simp: next_node_def Let_def Node_new_def split: option.splits if_splits
      dest!: NodeSet_find_Some)

lemma exit_junction_cases: "exit_junction c j = j \<or> exit_junction c j = left c \<or> exit_junction c j = right c"
  by (simp add: exit_junction_def)

lemma mark_above_fields:
  "mark_above st = Some st' \<Longrightarrow> st' = st\<lparr>unusedUp := unusedUp st'\<rparr>"
  by (auto simp: mark_above_def Let_def assert_def split: if_splits bind_splits)

lemma erase_cur_fields:
  "erase_cur st = Some st' \<Longrightarrow>
     st' = st\<lparr>unusedUp := NodeSet_erase (cur st) (unusedUp st),
              g := (g st)\<lparr>unused := NodeSet_erase (cur st) (unused (g st))\<rparr>,
              ports := ports st @ [cur st]\<rparr>"
  by (auto simp: erase_cur_def Let_def assert_def split: if_splits bind_splits)

lemma visit_steps:
  assumes "visit st = Some (st', k)"
  obtains st2 st3 st5 st6 J where
    "mark_above (st\<lparr>zs := zs st @ [if up st then 1 else 0]\<rparr>) = Some st2"
    "erase_cur st2 = Some st3"
    "erase_cur (st3\<lparr>cur := (cur st3)\<lparr>dir := exit_dir (cur st3)\<rparr>\<rparr>) = Some st5"
    "emit st5 = Some st6"
    "junctions (g st6) (exit_junction (cur st6) (entry_junction (cur st3))) = Some J"
    "case next_node (unused (g st6)) (FindNext J (mid (cur st6)) (is_clockwise (dir (cur st6))))
        (exit_junction (cur st6) (entry_junction (cur st3))) (is_clockwise (dir (cur st6))) of
       None \<Rightarrow> st' = st6 \<and> \<not> k
     | Some n \<Rightarrow> st' = st6\<lparr>cur := n\<rparr> \<and> k"
  using assms
  by (auto simp: visit_def Let_def split: bind_splits option.splits)

lemma visit_fields:
  assumes "visit st = Some (st', k)"
  shows "unused (g st') =
           NodeSet_erase ((cur st)\<lparr>dir := exit_dir (cur st)\<rparr>) (NodeSet_erase (cur st) (unused (g st)))"
    and "junctions (g st') = junctions (g st)"
    and "ports st' = ports st @ [cur st, (cur st)\<lparr>dir := exit_dir (cur st)\<rparr>]"
    and "zs st' = zs st @ [if up st then 1 else 0]"
    and "\<exists>t. thread st' = thread st @ [t]"
    and "\<exists>a. angles st' = angles st @ [a]"
    and "ret st' = ret st" and "retZs st' = retZs st" and "visited st' = visited st"
    and "up st' = (if type (cur st) = Cross then \<not> up st else up st)"
proof -
  from assms obtain st2 st3 st5 st6 J where
    m: "mark_above (st\<lparr>zs := zs st @ [if up st then 1 else 0]\<rparr>) = Some st2" and
    e1: "erase_cur st2 = Some st3" and
    e2: "erase_cur (st3\<lparr>cur := (cur st3)\<lparr>dir := exit_dir (cur st3)\<rparr>\<rparr>) = Some st5" and
    em: "emit st5 = Some st6" and
    jj: "junctions (g st6) (exit_junction (cur st6) (entry_junction (cur st3))) = Some J" and
    nn: "case next_node (unused (g st6)) (FindNext J (mid (cur st6)) (is_clockwise (dir (cur st6))))
        (exit_junction (cur st6) (entry_junction (cur st3))) (is_clockwise (dir (cur st6))) of
       None \<Rightarrow> st' = st6 \<and> \<not> k
     | Some n \<Rightarrow> st' = st6\<lparr>cur := n\<rparr> \<and> k"
    by (rule visit_steps)
  have fin: "st' = st6 \<or> (\<exists>n. st' = st6\<lparr>cur := n\<rparr>)"
    using nn by (auto split: option.splits)
  note f2 = mark_above_fields[OF m]
  note f3 = erase_cur_fields[OF e1]
  note f5 = erase_cur_fields[OF e2]
  note f6 = emit_fields[OF em]
  have c2: "cur st2 = cur st" "g st2 = g st" "ports st2 = ports st" "up st2 = up st"
    "zs st2 = zs st @ [if up st then 1 else 0]" "thread st2 = thread st" "angles st2 = angles st"
    "ret st2 = ret st" "retZs st2 = retZs st" "visited st2 = visited st"
    by (subst f2, simp)+
  have c3: "cur st3 = cur st" "unused (g st3) = NodeSet_erase (cur st) (unused (g st))"
    "junctions (g st3) = junctions (g st)" "ports st3 = ports st @ [cur st]" "up st3 = up st"
    "zs st3 = zs st2" "thread st3 = thread st" "angles st3 = angles st"
    "ret st3 = ret st" "retZs st3 = retZs st" "visited st3 = visited st"
    by (subst f3, simp add: c2)+
  have c5: "cur st5 = (cur st)\<lparr>dir := exit_dir (cur st)\<rparr>"
    "unused (g st5) = NodeSet_erase ((cur st)\<lparr>dir := exit_dir (cur st)\<rparr>) (NodeSet_erase (cur st) (unused (g st)))"
    "junctions (g st5) = junctions (g st)"
    "ports st5 = ports st @ [cur st, (cur st)\<lparr>dir := exit_dir (cur st)\<rparr>]" "up st5 = up st"
    "zs st5 = zs st2" "thread st5 = thread st" "angles st5 = angles st"
    "ret st5 = ret st" "retZs st5 = retZs st" "visited st5 = visited st"
    by (subst f5, simp add: c3)+
  have c6: "g st6 = g st5" "ports st6 = ports st5" "zs st6 = zs st5"
    "ret st6 = ret st5" "retZs st6 = retZs st5" "visited st6 = visited st5"
    by (subst f6(1), simp)+
  show "unused (g st') =
           NodeSet_erase ((cur st)\<lparr>dir := exit_dir (cur st)\<rparr>) (NodeSet_erase (cur st) (unused (g st)))"
    using fin c5 c6 by auto
  show "junctions (g st') = junctions (g st)" using fin c5 c6 by auto
  show "ports st' = ports st @ [cur st, (cur st)\<lparr>dir := exit_dir (cur st)\<rparr>]"
    using fin c5 c6 by auto
  show "zs st' = zs st @ [if up st then 1 else 0]" using fin c5 c6 c2 by auto
  show "\<exists>t. thread st' = thread st @ [t]" using fin f6(3) c5 by auto
  show "\<exists>a. angles st' = angles st @ [a]" using fin f6(4) c5 by auto
  show "ret st' = ret st" using fin c5 c6 by auto
  show "retZs st' = retZs st" using fin c5 c6 by auto
  show "visited st' = visited st" using fin c5 c6 by auto
  show "up st' = (if type (cur st) = Cross then \<not> up st else up st)"
    using fin f6(2) c5 by (auto simp: exit_dir_def)
qed

lemma trav_inv_zs [simp]: "trav_inv (st\<lparr>zs := z\<rparr>) = trav_inv st"
  by (simp add: trav_inv_def)

lemma entry_junction_cases: "entry_junction c = left c \<or> entry_junction c = right c"
  by (simp add: entry_junction_def)

lemma visit_total:
  assumes inv: "trav_inv st" and c: "cur st \<in> set (unused (g st))"
  shows "\<exists>st' k. visit st = Some (st', k)"
proof -
  define st1 where "st1 = st\<lparr>zs := zs st @ [if up st then 1 else 0]\<rparr>"
  have inv1: "trav_inv st1" and c1: "cur st1 \<in> set (unused (g st1))"
    using inv c by (simp_all add: st1_def)
  from mark_above_ok[OF inv1 c1] obtain uu where
    m: "mark_above st1 = Some (st1\<lparr>unusedUp := uu\<rparr>)" by blast
  define st2 where "st2 = st1\<lparr>unusedUp := uu\<rparr>"
  have c2: "cur st2 \<in> set (unused (g st2))" "cur st2 = cur st" "g st2 = g st"
    using c by (simp_all add: st2_def st1_def)
  define st3 where "st3 = st2\<lparr>unusedUp := NodeSet_erase (cur st2) (unusedUp st2),
           g := (g st2)\<lparr>unused := NodeSet_erase (cur st2) (unused (g st2))\<rparr>,
           ports := ports st2 @ [cur st2]\<rparr>"
  have e1: "erase_cur st2 = Some st3" unfolding st3_def by (rule erase_cur_ok[OF c2(1)])
  define st4 where "st4 = st3\<lparr>cur := (cur st3)\<lparr>dir := exit_dir (cur st3)\<rparr>\<rparr>"
  have pr: "nodes_paired (unused (g st))" using inv by (simp add: trav_inv_def)
  have c4: "cur st4 = (cur st)\<lparr>dir := exit_dir (cur st)\<rparr>"
    "unused (g st4) = NodeSet_erase (cur st) (unused (g st))"
    "junctions (g st4) = junctions (g st)"
    by (simp_all add: st4_def st3_def c2)
  have c4in: "cur st4 \<in> set (unused (g st4))"
    using paired_member[OF pr c] exit_dir_neq[of "cur st"] by (simp add: c4 set_NodeSet_erase)
  define st5 where "st5 = st4\<lparr>unusedUp := NodeSet_erase (cur st4) (unusedUp st4),
           g := (g st4)\<lparr>unused := NodeSet_erase (cur st4) (unused (g st4))\<rparr>,
           ports := ports st4 @ [cur st4]\<rparr>"
  have e2: "erase_cur st4 = Some st5" unfolding st5_def by (rule erase_cur_ok[OF c4in])
  have lnk: "node_linked (junctions (g st)) (cur st)" using inv c by (simp add: trav_inv_def)
  have c5: "cur st5 = (cur st)\<lparr>dir := exit_dir (cur st)\<rparr>" "junctions (g st5) = junctions (g st)"
    by (simp_all add: st5_def c4)
  have "node_linked (junctions (g st5)) (cur st5)" using lnk by (simp add: c5)
  from emit_ok[OF this] obtain st6 where em: "emit st5 = Some st6" by blast
  have c6: "cur st6 = cur st5" "g st6 = g st5"
    by (subst emit_fields(1)[OF em], simp)+
  have c3: "cur st3 = cur st" by (simp add: st3_def c2)
  have "\<exists>J. junctions (g st6) (exit_junction (cur st6) (entry_junction (cur st3))) = Some J"
    using lnk exit_junction_cases[of "cur st6" "entry_junction (cur st3)"]
      entry_junction_cases[of "cur st"]
    by (auto simp: c6 c5 c3 node_linked_def)
  then obtain J where
    jj: "junctions (g st6) (exit_junction (cur st6) (entry_junction (cur st3))) = Some J" by blast
  have m': "mark_above (st\<lparr>zs := zs st @ [if up st then 1 else 0]\<rparr>) = Some st2"
    using m by (simp add: st1_def st2_def)
  have e2': "erase_cur (st3\<lparr>cur := (cur st3)\<lparr>dir := exit_dir (cur st3)\<rparr>\<rparr>) = Some st5"
    using e2 by (simp add: st4_def)
  show ?thesis
    by (cases "next_node (unused (g st6)) (FindNext J (mid (cur st6)) (is_clockwise (dir (cur st6))))
        (exit_junction (cur st6) (entry_junction (cur st3))) (is_clockwise (dir (cur st6)))")
      (auto simp add: visit_def m' e1 e2' em jj Let_def)
qed

lemma visit_inv:
  assumes inv: "trav_inv st" and c: "cur st \<in> set (unused (g st))"
    and v: "visit st = Some (st', k)"
  shows "trav_inv st'" and "k \<Longrightarrow> cur st' \<in> set (unused (g st'))"
proof -
  from v obtain st2 st3 st5 st6 J where
    m: "mark_above (st\<lparr>zs := zs st @ [if up st then 1 else 0]\<rparr>) = Some st2" and
    e1: "erase_cur st2 = Some st3" and
    e2: "erase_cur (st3\<lparr>cur := (cur st3)\<lparr>dir := exit_dir (cur st3)\<rparr>\<rparr>) = Some st5" and
    em: "emit st5 = Some st6" and
    jj: "junctions (g st6) (exit_junction (cur st6) (entry_junction (cur st3))) = Some J" and
    nn: "case next_node (unused (g st6)) (FindNext J (mid (cur st6)) (is_clockwise (dir (cur st6))))
        (exit_junction (cur st6) (entry_junction (cur st3))) (is_clockwise (dir (cur st6))) of
       None \<Rightarrow> st' = st6 \<and> \<not> k
     | Some n \<Rightarrow> st' = st6\<lparr>cur := n\<rparr> \<and> k"
    by (rule visit_steps)
  let ?c = "cur st" and ?c' = "(cur st)\<lparr>dir := exit_dir (cur st)\<rparr>"
  let ?u = "unused (g st)"
  note vf = visit_fields[OF v]
  have u': "unused (g st') = NodeSet_erase ?c' (NodeSet_erase ?c ?u)" by (rule vf(1))
  have srt: "sorted_wrt Node_less (unused (g st'))"
    using inv by (simp add: u' trav_inv_def sorted_NodeSet_erase)
  have uni: "nodes_uniform (unused (g st'))"
    using inv by (simp add: u' trav_inv_def nodes_uniform_erase)
  have pr: "nodes_paired (unused (g st'))"
    unfolding u' using inv c by (intro nodes_paired_erase2) (simp_all add: trav_inv_def)
  have lnk: "\<forall>n\<in>set (unused (g st')). node_linked (junctions (g st')) n"
    using inv by (auto simp: u' vf(2) trav_inv_def set_NodeSet_erase)
  \<comment> \<open>the set of nodes crossed from below\<close>
  have inv1: "trav_inv (st\<lparr>zs := zs st @ [if up st then 1 else 0]\<rparr>)" using inv by simp
  have c1: "cur (st\<lparr>zs := zs st @ [if up st then 1 else 0]\<rparr>)
      \<in> set (unused (g (st\<lparr>zs := zs st @ [if up st then 1 else 0]\<rparr>)))" using c by simp
  from mark_above_ok[OF inv1 c1] obtain uu where
    m2: "mark_above (st\<lparr>zs := zs st @ [if up st then 1 else 0]\<rparr>) =
           Some (st\<lparr>zs := zs st @ [if up st then 1 else 0], unusedUp := uu\<rparr>)"
    and uu: "sorted_wrt Node_less uu" "set uu \<subseteq> set ?u"
    by force
  have st2: "st2 = st\<lparr>zs := zs st @ [if up st then 1 else 0], unusedUp := uu\<rparr>"
    using m m2 by simp
  have f3: "unusedUp st3 = NodeSet_erase ?c uu" "cur st3 = ?c"
    by (subst erase_cur_fields[OF e1], simp add: st2)+
  have f5: "unusedUp st5 = NodeSet_erase ?c' (NodeSet_erase ?c uu)"
    by (subst erase_cur_fields[OF e2], simp add: f3)
  have f6: "unusedUp st6 = unusedUp st5" "g st6 = g st5"
    by (subst emit_fields(1)[OF em], simp)+
  have fin: "st' = st6 \<or> (\<exists>n. st' = st6\<lparr>cur := n\<rparr>)"
    using nn by (auto split: option.splits)
  then have up': "unusedUp st' = NodeSet_erase ?c' (NodeSet_erase ?c uu)"
    using f5 f6 by auto
  have "sorted_wrt Node_less (unusedUp st')"
    using uu by (simp add: up' sorted_NodeSet_erase)
  moreover have "set (unusedUp st') \<subseteq> set (unused (g st'))"
    using uu by (auto simp: up' u' set_NodeSet_erase)
  ultimately show "trav_inv st'" using srt uni pr lnk by (simp add: trav_inv_def)
  show "cur st' \<in> set (unused (g st'))" if k
  proof (cases "next_node (unused (g st6)) (FindNext J (mid (cur st6)) (is_clockwise (dir (cur st6))))
        (exit_junction (cur st6) (entry_junction (cur st3))) (is_clockwise (dir (cur st6)))")
    case None
    then show ?thesis using nn that by simp
  next
    case (Some n)
    then have s': "st' = st6\<lparr>cur := n\<rparr>" using nn by simp
    then have eq: "unused (g st6) = unused (g st')" by simp
    then have "nodes_uniform (unused (g st6))" using uni by simp
    from next_node_member[OF this Some] show ?thesis by (simp add: s')
  qed
qed

text \<open>What one or more runs of the loop body add to the thread being traced.\<close>

definition grows :: "nat \<Rightarrow> State \<Rightarrow> State \<Rightarrow> bool" where
  "grows n st st' =
     (\<exists>ts as z ps. thread st' = thread st @ ts \<and> angles st' = angles st @ as \<and>
        zs st' = zs st @ z \<and> ports st' = ports st @ ps \<and>
        length ts = n \<and> length as = n \<and> length z = n \<and> length ps = 2 * n \<and>
        ret st' = ret st \<and> retZs st' = retZs st \<and> visited st' = visited st \<and>
        junctions (g st') = junctions (g st))"

lemma visit_grows: "visit st = Some (st', k) \<Longrightarrow> grows 1 st st'"
  using visit_fields[of st st' k] unfolding grows_def
  by (auto simp: length_Suc_conv)

lemma grows_trans:
  assumes "grows n st st1" "grows m st1 st2"
  shows "grows (n + m) st st2"
proof -
  from assms(1) obtain ts as z ps where
    1: "thread st1 = thread st @ ts" "angles st1 = angles st @ as" "zs st1 = zs st @ z"
       "ports st1 = ports st @ ps" "length ts = n" "length as = n" "length z = n"
       "length ps = 2 * n" "ret st1 = ret st" "retZs st1 = retZs st" "visited st1 = visited st"
       "junctions (g st1) = junctions (g st)"
    unfolding grows_def by blast
  from assms(2) obtain ts' as' z' ps' where
    2: "thread st2 = thread st1 @ ts'" "angles st2 = angles st1 @ as'" "zs st2 = zs st1 @ z'"
       "ports st2 = ports st1 @ ps'" "length ts' = m" "length as' = m" "length z' = m"
       "length ps' = 2 * m" "ret st2 = ret st1" "retZs st2 = retZs st1" "visited st2 = visited st1"
       "junctions (g st2) = junctions (g st1)"
    unfolding grows_def by blast
  show ?thesis
    unfolding grows_def
    by (rule exI[of _ "ts @ ts'"], rule exI[of _ "as @ as'"], rule exI[of _ "z @ z'"],
        rule exI[of _ "ps @ ps'"]) (simp add: 1 2)
qed

lemma trace_grows: "trace st = Some st' \<Longrightarrow> \<exists>n>0. grows n st st'"
proof (induction st rule: trace.induct)
  case (1 st)
  from "1.prems" obtain st1 k where v: "visit st = Some (st1, k)"
    by (auto split: option.splits)
  show ?case
  proof (cases k)
    case False
    then have "st' = st1" using "1.prems" v by simp
    then show ?thesis using visit_grows[OF v] by blast
  next
    case True
    then have "trace st1 = Some st'" using "1.prems" v by simp
    from "1.IH"[OF v refl True this] obtain n where "n > 0" "grows n st1 st'" by blast
    with grows_trans[OF visit_grows[OF v]] show ?thesis by fastforce
  qed
qed

lemma trace_inv:
  "trav_inv st \<Longrightarrow> cur st \<in> set (unused (g st)) \<Longrightarrow> trace st = Some st' \<Longrightarrow> trav_inv st'"
proof (induction st rule: trace.induct)
  case (1 st)
  from "1.prems"(3) obtain st1 k where v: "visit st = Some (st1, k)"
    by (auto split: option.splits)
  note vi = visit_inv[OF "1.prems"(1,2) v]
  show ?case
  proof (cases k)
    case False
    then have "st' = st1" using "1.prems" v by simp
    then show ?thesis using vi(1) by simp
  next
    case True
    then have "trace st1 = Some st'" using "1.prems" v by simp
    from "1.IH"[OF v refl True vi(1) vi(2)[OF True] this] show ?thesis .
  qed
qed

lemma trace_total:
  "trav_inv st \<Longrightarrow> cur st \<in> set (unused (g st)) \<Longrightarrow> \<exists>st'. trace st = Some st'"
proof (induction st rule: trace.induct)
  case (1 st)
  from visit_total[OF "1.prems"] obtain st1 k where v: "visit st = Some (st1, k)" by blast
  note vi = visit_inv[OF "1.prems"(1,2) v]
  show ?case
  proof (cases k)
    case False
    then show ?thesis using v by simp
  next
    case True
    from "1.IH"[OF v refl True vi(1) vi(2)[OF True]] show ?thesis using v True by simp
  qed
qed

lemma mset_filter_neq:
  "distinct u \<Longrightarrow> c \<in> set u \<Longrightarrow> mset u = mset (filter (\<lambda>r. r \<noteq> c) u) + {#c#}"
proof (induction u)
  case Nil
  then show ?case by simp
next
  case (Cons t ts)
  show ?case
  proof (cases "t = c")
    case True
    then have "c \<notin> set ts" using Cons.prems by simp
    then have "filter (\<lambda>r. r \<noteq> c) ts = ts" by (auto simp: filter_id_conv)
    then show ?thesis using True by simp
  next
    case False
    then show ?thesis using Cons by simp
  qed
qed

lemma mset_NodeSet_erase:
  assumes "sorted_wrt Node_less u" "c \<in> set u"
  shows "mset u = mset (NodeSet_erase c u) + {#c#}"
proof -
  have "NodeSet_erase c u = filter (\<lambda>r. r \<noteq> c) u"
    unfolding NodeSet_erase_def
    by (rule filter_cong) (auto simp: Node_equiv_iff dest: sorted_nodes_key[OF assms(1) _ assms(2)])
  then show ?thesis
    using mset_filter_neq[OF sorted_nodes_distinct[OF assms(1)] assms(2)] by simp
qed

lemma visit_mset:
  assumes inv: "trav_inv st" and c: "cur st \<in> set (unused (g st))"
    and v: "visit st = Some (st', k)"
  shows "mset (unused (g st')) + mset (ports st') = mset (unused (g st)) + mset (ports st)"
proof -
  let ?c = "cur st" and ?c' = "(cur st)\<lparr>dir := exit_dir (cur st)\<rparr>"
  note vf = visit_fields[OF v]
  have srt: "sorted_wrt Node_less (unused (g st))" and pr: "nodes_paired (unused (g st))"
    using inv by (simp_all add: trav_inv_def)
  have c': "?c' \<in> set (NodeSet_erase ?c (unused (g st)))"
    using paired_member[OF pr c] exit_dir_neq[of ?c] by (simp add: set_NodeSet_erase)
  have "mset (unused (g st)) = mset (NodeSet_erase ?c (unused (g st))) + {#?c#}"
    by (rule mset_NodeSet_erase[OF srt c])
  also have "mset (NodeSet_erase ?c (unused (g st))) =
      mset (NodeSet_erase ?c' (NodeSet_erase ?c (unused (g st)))) + {#?c'#}"
    by (rule mset_NodeSet_erase[OF sorted_NodeSet_erase[OF srt] c'])
  finally show ?thesis by (simp add: vf(1) vf(3))
qed

lemma trace_mset:
  "trav_inv st \<Longrightarrow> cur st \<in> set (unused (g st)) \<Longrightarrow> trace st = Some st' \<Longrightarrow>
     mset (unused (g st')) + mset (ports st') = mset (unused (g st)) + mset (ports st)"
proof (induction st rule: trace.induct)
  case (1 st)
  from "1.prems"(3) obtain st1 k where v: "visit st = Some (st1, k)"
    by (auto split: option.splits)
  note vi = visit_inv[OF "1.prems"(1,2) v]
  note vm = visit_mset[OF "1.prems"(1,2) v]
  show ?case
  proof (cases k)
    case False
    then have "st' = st1" using "1.prems" v by simp
    then show ?thesis using vm by simp
  next
    case True
    then have "trace st1 = Some st'" using "1.prems" v by simp
    from "1.IH"[OF v refl True vi(1) vi(2)[OF True] this] vm show ?thesis by simp
  qed
qed

lemma trace_shrinks: "trace st = Some st' \<Longrightarrow> length (unused (g st')) < length (unused (g st))"
proof (induction st rule: trace.induct)
  case (1 st)
  from "1.prems" obtain st1 k where v: "visit st = Some (st1, k)"
    by (auto split: option.splits)
  show ?case
  proof (cases k)
    case False
    then have "st' = st1" using "1.prems" v by simp
    then show ?thesis using visit_shrinks[OF v] by simp
  next
    case True
    then have "trace st1 = Some st'" using "1.prems" v by simp
    from "1.IH"[OF v refl True this] visit_shrinks[OF v] show ?thesis by simp
  qed
qed

lemma start_fields:
  assumes "begin_thread st = Some st1"
  shows "st1 = st\<lparr>thread := [], angles := [], zs := [], ports := [],
                  up := (unusedUp st \<noteq> []), cur := cur st1\<rparr>"
    and "unusedUp st \<noteq> [] \<Longrightarrow> cur st1 = hd (unusedUp st)"
    and "unusedUp st = [] \<Longrightarrow> unused (g st) \<noteq> [] \<and> cur st1 = hd (unused (g st))"
  using assms
  by (auto simp: begin_thread_def NodeSet_begin_def split: bind_splits if_splits list.splits)

lemma start_total: "more_threads st \<Longrightarrow> \<exists>st1. begin_thread st = Some st1"
  by (auto simp: begin_thread_def more_threads_def NodeSet_begin_def split: list.splits)

lemma start_inv:
  assumes "trav_inv st" "begin_thread st = Some st1"
  shows "trav_inv st1" "cur st1 \<in> set (unused (g st1))"
proof -
  note sf = start_fields[OF assms(2)]
  have eq: "g st1 = g st" "unusedUp st1 = unusedUp st" by (subst sf(1), simp)+
  show "trav_inv st1" using assms(1) by (simp add: trav_inv_def eq)
  show "cur st1 \<in> set (unused (g st1))"
  proof (cases "unusedUp st = []")
    case True
    then show ?thesis using sf(3) by (simp add: eq)
  next
    case False
    then have "hd (unusedUp st) \<in> set (unusedUp st)" by simp
    then show ?thesis using sf(2)[OF False] assms(1) by (auto simp: trav_inv_def eq)
  qed
qed

lemma finish_g: "finish st = Some st' \<Longrightarrow> g st' = g st \<and> unusedUp st' = unusedUp st"
  by (auto simp: finish_def Let_def split: bind_splits)

lemma one_thread_shrinks:
  assumes "one_thread st = Some st'"
  shows "length (unused (g st')) < length (unused (g st))"
proof -
  from assms obtain st1 st2 where s: "begin_thread st = Some st1" and t: "trace st1 = Some st2"
    and f: "finish st2 = Some st'"
    by (auto simp: one_thread_def split: bind_splits)
  have "g st1 = g st" by (subst start_fields(1)[OF s], simp)
  with trace_shrinks[OF t] finish_g[OF f] show ?thesis by simp
qed

text \<open>The outer loop (lines 347-509).\<close>

function threads :: "State \<Rightarrow> State option" where
  "threads st =
     (if more_threads st then
        (case one_thread st of None \<Rightarrow> None | Some st' \<Rightarrow> threads st')
      else Some st)"
  by pat_completeness auto
termination
  by (relation "measure (\<lambda>st. length (unused (g st)))") (auto dest: one_thread_shrinks)

text \<open>
  The state when the outer loop is reached: the graph is built and nothing is traced.
  The variables declared in the body of the outer loop have no value yet.
\<close>

definition init :: "Stroke list \<Rightarrow> State" where
  "init strokes =
     \<lparr>g = Graph_init strokes, unusedUp = [], ret = [], retZs = [],
      thread = [], angles = [], zs = [], up = False, cur = Node_new (vec2 0 0) fLeft,
      ports = [], visited = []\<rparr>"

definition CreateThread :: "Stroke list \<Rightarrow> Art option" where
  "CreateThread strokes = do {
     st \<leftarrow> threads (init strokes);
     Some \<lparr>mThreads = ret st, mZs = retZs st\<rparr>
   }"

text \<open>The states in which the condition of the outer loop is evaluated.\<close>

inductive outer_head :: "Stroke list \<Rightarrow> State \<Rightarrow> bool" for strokes where
  outer_first: "outer_head strokes (init strokes)"
| outer_next: "outer_head strokes st \<Longrightarrow> more_threads st \<Longrightarrow> one_thread st = Some st'
     \<Longrightarrow> outer_head strokes st'"

text \<open>The states at the top of the inner loop.\<close>

inductive inner_head :: "Stroke list \<Rightarrow> State \<Rightarrow> bool" for strokes where
  inner_first: "outer_head strokes st \<Longrightarrow> more_threads st \<Longrightarrow> begin_thread st = Some st1
     \<Longrightarrow> inner_head strokes st1"
| inner_next: "inner_head strokes st \<Longrightarrow> visit st = Some (st', True)
     \<Longrightarrow> inner_head strokes st'"

definition knots :: "nat \<Rightarrow> real list" where
  "knots f = map (\<lambda>i. real i / real f) [0..<f] @ [1]"

lemma increasing_iff: "increasing l vs \<longleftrightarrow> sorted_wrt (<) (l # vs)"
  by (induction vs arbitrary: l) auto

lemma increasing_check: "(case xs of [] \<Rightarrow> True | v # vs \<Rightarrow> increasing v vs) = sorted_wrt (<) xs"
  by (cases xs) (simp_all only: increasing_iff list.case sorted_wrt.simps(1))

lemma sorted_knots: "0 < f \<Longrightarrow> sorted_wrt (<) (knots f)"
proof -
  assume f: "0 < f"
  have "sorted_wrt (<) [0..<f]" by simp
  then have "sorted_wrt (\<lambda>i j. real i / real f < real j / real f) [0..<f]"
    by (rule sorted_wrt_mono_rel[rotated]) (use f in \<open>simp add: divide_strict_right_mono\<close>)
  moreover have "\<forall>i\<in>set [0..<f]. real i / real f < 1" using f by simp
  ultimately show ?thesis
    by (simp add: knots_def sorted_wrt_append sorted_wrt_map)
qed

lemma length_knots [simp]: "length (knots f) = f + 1"
  by (simp add: knots_def)

lemma Spline_new_Some:
  assumes "Spline_new xs ys n l c = Some sp"
  shows "mN sp = n mod 2 ^ 30" "1 < mN sp" "mLoop sp = l" "mXs sp = take n xs" "mYs sp = take n ys"
    "n \<le> length xs" "n \<le> length ys"
  using assms
  by (auto simp: Spline_new_def Let_def assert_def split: bind_splits if_splits)

lemma Spline_new_ok:
  assumes "1 < n mod 2 ^ 30" "n \<le> length xs" "n \<le> length ys"
    "sorted_wrt (<) (take (n mod 2 ^ 30) xs)"
  shows "\<exists>sp. Spline_new xs ys n l c = Some sp"
  using assms by (simp add: Spline_new_def Let_def assert_def increasing_check)

lemma Hermite_new_Some:
  assumes "Hermite_new xs ys ms n l c = Some T"
  shows "mN T = n mod 2 ^ 30" "1 < mN T" "mLoop T = l" "mXs T = take n xs" "mYs T = take n ys"
    "mMs T = take n ms" "n \<le> length xs" "n \<le> length ys" "n \<le> length ms"
  using assms
  by (auto simp: Hermite_new_def Spline.extend_def assert_def
      split: bind_splits if_splits dest: Spline_new_Some)

lemma Hermite_new_ok:
  assumes "1 < n mod 2 ^ 30" "n \<le> length xs" "n \<le> length ys" "n \<le> length ms"
    "sorted_wrt (<) (take (n mod 2 ^ 30) xs)"
  shows "\<exists>T. Hermite_new xs ys ms n l c = Some T"
  using Spline_new_ok[OF assms(1,2,3,5), of l c] assms(4)
  by (auto simp: Hermite_new_def assert_def)

definition closed_thread :: "Hermite \<Rightarrow> Step \<Rightarrow> Node list \<Rightarrow> bool" where
  "closed_thread T Z ps =
     (\<exists>ts as z. ts \<noteq> [] \<and> length as = length ts \<and> length z = length ts \<and>
        length ps = 2 * length ts \<and>
        mYs T = ts @ [hd ts] \<and> mMs T = as @ [hd as] \<and> mYs Z = z @ [hd z] \<and>
        mXs T = knots (length ts) \<and> mXs Z = knots (length ts) \<and>
        mN T = (length ts + 1) mod 2 ^ 30 \<and> mN Z = mN T \<and> 1 < mN T \<and> mLoop T \<and> mLoop Z)"

lemma front_Some: "front v = Some e \<longleftrightarrow> v \<noteq> [] \<and> e = hd v"
  by (cases v) (auto simp: front_def)

lemma finish_fields:
  assumes f: "finish st = Some st'"
    and len: "length (angles st) = length (thread st)" "length (zs st) = length (thread st)"
      "length (ports st) = 2 * length (thread st)"
  shows "\<exists>T Z. ret st' = ret st @ [T] \<and> retZs st' = retZs st @ [Z] \<and>
           visited st' = visited st @ [ports st] \<and> closed_thread T Z (ports st)"
proof -
  let ?f = "length (thread st)"
  from f obtain T Z where
    ne: "thread st \<noteq> []" "angles st \<noteq> []" "zs st \<noteq> []" and
    T: "Hermite_new (knots ?f) (thread st @ [hd (thread st)]) (angles st @ [hd (angles st)])
          (?f + 1) True True = Some T" and
    Z: "Spline_new (knots ?f) (zs st @ [hd (zs st)]) (?f + 1) True True = Some Z" and
    st': "ret st' = ret st @ [T]" "retZs st' = retZs st @ [Z]" "visited st' = visited st @ [ports st]"
    by (auto simp: finish_def Let_def front_Some knots_def Step_new_def split: bind_splits)
  note hT = Hermite_new_Some[OF T]
  note hZ = Spline_new_Some[OF Z]
  have "closed_thread T Z (ports st)"
    unfolding closed_thread_def
    by (rule exI[of _ "thread st"], rule exI[of _ "angles st"], rule exI[of _ "zs st"])
       (use ne len hT hZ in simp)
  then show ?thesis using st' by blast
qed

lemma finish_total:
  assumes ne: "thread st \<noteq> []"
    and len: "length (angles st) = length (thread st)" "length (zs st) = length (thread st)"
    and small: "length (thread st) + 1 < 2 ^ 30"
  shows "\<exists>st'. finish st = Some st'"
proof -
  let ?f = "length (thread st)"
  have f0: "0 < ?f" using ne by simp
  have md: "(?f + 1) mod 2 ^ 30 = ?f + 1" using small by simp
  have srt: "sorted_wrt (<) (take ((?f + 1) mod 2 ^ 30) (knots ?f))"
    using sorted_knots[OF f0] by (simp add: md)
  have ne': "angles st \<noteq> []" "zs st \<noteq> []" using ne len by auto
  from Hermite_new_ok[of "?f + 1" "knots ?f" "thread st @ [hd (thread st)]"
      "angles st @ [hd (angles st)]" True True]
  obtain T where T: "Hermite_new (knots ?f) (thread st @ [hd (thread st)])
      (angles st @ [hd (angles st)]) (?f + 1) True True = Some T"
    using f0 md srt len by auto
  from Spline_new_ok[of "?f + 1" "knots ?f" "zs st @ [hd (zs st)]" True True]
  obtain Z where Z: "Spline_new (knots ?f) (zs st @ [hd (zs st)]) (?f + 1) True True = Some Z"
    using f0 md srt len by auto
  have fr: "front (thread st) = Some (hd (thread st))" "front (angles st) = Some (hd (angles st))"
    "front (zs st) = Some (hd (zs st))"
    using ne ne' by (simp_all add: front_Some)
  show ?thesis
    using T Z fr by (simp add: finish_def Let_def Step_new_def knots_def[symmetric])
qed

definition outer_inv :: "NodeSet \<Rightarrow> State \<Rightarrow> bool" where
  "outer_inv U0 st =
     (trav_inv st \<and>
      mset (unused (g st)) + mset (concat (visited st)) = mset U0 \<and>
      length (ret st) = length (visited st) \<and> length (retZs st) = length (visited st) \<and>
      (\<forall>i<length (visited st). closed_thread (ret st ! i) (retZs st ! i) (visited st ! i)))"

lemma one_thread_steps:
  assumes "one_thread st = Some st'"
  obtains st1 st2 where "begin_thread st = Some st1" "trace st1 = Some st2" "finish st2 = Some st'"
  using assms by (auto simp: one_thread_def split: bind_splits)

lemma start_eqs:
  assumes "begin_thread st = Some st1"
  shows "g st1 = g st" "unusedUp st1 = unusedUp st" "ret st1 = ret st" "retZs st1 = retZs st"
    "visited st1 = visited st" "thread st1 = []" "angles st1 = []" "zs st1 = []" "ports st1 = []"
    "up st1 = (unusedUp st \<noteq> [])"
  by (subst start_fields(1)[OF assms], simp)+

lemma thread_lengths:
  assumes s: "begin_thread st = Some st1" and t: "trace st1 = Some st2"
  shows "thread st2 \<noteq> []" "length (angles st2) = length (thread st2)"
    "length (zs st2) = length (thread st2)" "length (ports st2) = 2 * length (thread st2)"
    "ret st2 = ret st" "retZs st2 = retZs st" "visited st2 = visited st"
proof -
  from trace_grows[OF t] obtain n where "0 < n" "grows n st1 st2" by blast
  then show "thread st2 \<noteq> []" "length (angles st2) = length (thread st2)"
    "length (zs st2) = length (thread st2)" "length (ports st2) = 2 * length (thread st2)"
    "ret st2 = ret st" "retZs st2 = retZs st" "visited st2 = visited st"
    unfolding grows_def using start_eqs[OF s] by auto
qed

lemma one_thread_inv:
  assumes inv: "outer_inv U0 st" and ot: "one_thread st = Some st'"
  shows "outer_inv U0 st'"
proof -
  from ot obtain st1 st2 where s: "begin_thread st = Some st1" and t: "trace st1 = Some st2"
    and f: "finish st2 = Some st'"
    by (rule one_thread_steps)
  have ti: "trav_inv st" using inv by (simp add: outer_inv_def)
  note si = start_inv[OF ti s]
  note se = start_eqs[OF s]
  have t2: "trav_inv st2" by (rule trace_inv[OF si t])
  have t': "trav_inv st'" using t2 finish_g[OF f] by (simp add: trav_inv_def)
  note tl = thread_lengths[OF s t]
  from finish_fields[OF f tl(2,3,4)] obtain T Z where
    r: "ret st' = ret st @ [T]" "retZs st' = retZs st @ [Z]"
       "visited st' = visited st @ [ports st2]" and ct: "closed_thread T Z (ports st2)"
    using tl(5,6,7) by auto
  have ms: "mset (unused (g st2)) + mset (ports st2) = mset (unused (g st))"
    using trace_mset[OF si t] by (simp add: se)
  have "mset (unused (g st)) + mset (concat (visited st)) = mset U0"
    using inv by (simp add: outer_inv_def)
  then have "mset (unused (g st')) + mset (concat (visited st')) = mset U0"
    using finish_g[OF f] by (simp add: r ms[symmetric] ac_simps)
  moreover have "\<forall>i<length (visited st'). closed_thread (ret st' ! i) (retZs st' ! i) (visited st' ! i)"
    using inv ct by (auto simp: outer_inv_def r nth_append)
  ultimately show ?thesis using inv t' by (simp add: outer_inv_def r)
qed

lemma one_thread_total:
  assumes inv: "trav_inv st" and more: "more_threads st"
    and small: "length (unused (g st)) \<le> 2 ^ 31 - 4"
  shows "\<exists>st'. one_thread st = Some st'"
proof -
  from start_total[OF more] obtain st1 where s: "begin_thread st = Some st1" by blast
  note si = start_inv[OF inv s]
  note se = start_eqs[OF s]
  from trace_total[OF si] obtain st2 where t: "trace st1 = Some st2" by blast
  note tl = thread_lengths[OF s t]
  have "mset (unused (g st2)) + mset (ports st2) = mset (unused (g st))"
    using trace_mset[OF si t] by (simp add: se)
  then have "length (unused (g st2)) + length (ports st2) = length (unused (g st))"
    by (metis length_append mset_append mset_eq_length)
  then have "2 * length (thread st2) \<le> 2 ^ 31 - 4" using small tl(4) by simp
  then have "length (thread st2) + 1 < 2 ^ 30" by simp
  from finish_total[OF tl(1,2,3) this] obtain st' where "finish st2 = Some st'" by blast
  then show ?thesis using s t by (simp add: one_thread_def)
qed

lemma threads_inv:
  "outer_inv U0 st \<Longrightarrow> threads st = Some st' \<Longrightarrow> outer_inv U0 st' \<and> \<not> more_threads st'"
proof (induction st rule: threads.induct)
  case (1 st)
  show ?case
  proof (cases "more_threads st")
    case False
    then show ?thesis using "1.prems" by simp
  next
    case True
    then obtain st1 where ot: "one_thread st = Some st1" and th: "threads st1 = Some st'"
      using "1.prems"(2) by (auto split: option.splits)
    from "1.IH"[OF True ot one_thread_inv[OF "1.prems"(1) ot] th] show ?thesis .
  qed
qed

lemma threads_total:
  "trav_inv st \<Longrightarrow> length (unused (g st)) \<le> 2 ^ 31 - 4 \<Longrightarrow> \<exists>st'. threads st = Some st'"
proof (induction st rule: threads.induct)
  case (1 st)
  show ?case
  proof (cases "more_threads st")
    case False
    then show ?thesis by simp
  next
    case True
    from one_thread_total[OF "1.prems"(1) True "1.prems"(2)] obtain st1 where
      ot: "one_thread st = Some st1" by blast
    from ot obtain sa sb where s: "begin_thread st = Some sa" and t: "trace sa = Some sb"
      and f: "finish sb = Some st1"
      by (rule one_thread_steps)
    have "trav_inv st1"
      using trace_inv[OF start_inv[OF "1.prems"(1) s] t] finish_g[OF f] by (simp add: trav_inv_def)
    moreover have "length (unused (g st1)) \<le> 2 ^ 31 - 4"
      using one_thread_shrinks[OF ot] "1.prems"(2) by simp
    ultimately show ?thesis using "1.IH"[OF True ot] ot True by simp
  qed
qed

lemma trav_inv_init: "trav_inv (init strokes)"
  using graph_inv_init[of strokes]
  by (simp add: trav_inv_def init_def graph_inv_def nodes_full_paired)

lemma outer_inv_init: "outer_inv (unused (Graph_init strokes)) (init strokes)"
  using trav_inv_init[of strokes] by (simp add: outer_inv_def) (simp add: init_def)

lemma length_unused_init: "length (unused (Graph_init strokes)) = 4 * card (GetMid ` set strokes)"
  using graph_inv_init[of strokes] by (simp add: graph_inv_def)

lemma card_mids_le: "card (GetMid ` set strokes) \<le> length strokes"
  by (metis card_image_le card_length le_trans List.finite_set)

lemma run_total:
  assumes "length strokes < 2 ^ 29"
  shows "\<exists>st. threads (init strokes) = Some st"
proof -
  have "length (unused (g (init strokes))) \<le> 4 * length strokes"
    using length_unused_init[of strokes] card_mids_le[of strokes] by (simp add: init_def)
  then have "length (unused (g (init strokes))) \<le> 2 ^ 31 - 4" using assms by simp
  from threads_total[OF trav_inv_init this] show ?thesis .
qed

lemma run_inv:
  assumes "threads (init strokes) = Some st"
  shows "outer_inv (unused (Graph_init strokes)) st" "unused (g st) = []" "unusedUp st = []"
  using threads_inv[OF outer_inv_init assms] by (simp_all add: more_threads_def)

section \<open>Evaluation of a curve (spline.hpp 29-55, 168-189, 341-426, 568-584)\<close>

text \<open>
  \<open>Function::Imod\<close>: the operator \<open>%\<close> of C++ truncates towards zero, as \<open>smod\<close> does.
\<close>

definition Imod :: "int \<Rightarrow> int \<Rightarrow> int" where
  "Imod i j = (if i smod j < 0 then i smod j + (if j < 0 then - j else j) else i smod j)"

text \<open>\<open>Function::Mod(i, start, end)\<close>, with its two assertions.\<close>

definition Mod :: "real \<Rightarrow> real \<Rightarrow> real \<Rightarrow> real option" where
  "Mod i start stop =
     (let range = stop - start;
          d0 = \<bar>(i - start) / range\<bar>;
          d1 = d0 - of_int \<lfloor>d0\<rfloor>;
          d2 = d1 * range;
          d = (if i \<ge> start then d2 + start else stop - d2)
      in do { assert (d \<ge> start); assert (d < stop); Some d })"

definition GetX :: "'st Spline \<Rightarrow> int \<Rightarrow> real option" where
  "GetX sp index =
     (let index1 = Imod index (int (mN sp)) in do {
        assert (index1 \<ge> 0);
        assert (index1 < int (mN sp));
        vector_at (mXs sp) (nat index1)
      })"

definition GetY :: "'st Spline \<Rightarrow> int \<Rightarrow> 'st option" where
  "GetY sp index =
     (let index1 = Imod index (int (mN sp)) in do {
        assert (index1 \<ge> 0);
        assert (index1 < int (mN sp));
        vector_at (mYs sp) (nat index1)
      })"

definition LoopInRange :: "'st Spline \<Rightarrow> real \<Rightarrow> real option" where
  "LoopInRange sp x = do {
     x0 \<leftarrow> vector_at (mXs sp) 0;
     xn \<leftarrow> vector_at (mXs sp) (mN sp - 1);
     Mod x x0 xn
   }"

text \<open>
  The search loop of \<open>GetIndex\<close> (lines 361-382); \<open>i\<close> starts as the cached index.
  The loop has no bound of its own, so not returning is the result \<open>None\<close>.
\<close>

partial_function (option) GetIndex_loop :: "'st Spline \<Rightarrow> real \<Rightarrow> int \<Rightarrow> int option" where
  "GetIndex_loop sp x i =
     Option.bind (GetX sp (Imod i (int (mN sp)))) (\<lambda>current.
     Option.bind (GetX sp (Imod i (int (mN sp)) + 1)) (\<lambda>next.
       if current \<le> x then
         (if next > x then Some (Imod i (int (mN sp)))
          else if Imod i (int (mN sp)) = int (mN sp) - 2 \<and> \<not> mLoop sp
            then Some (Imod i (int (mN sp)))
          else GetIndex_loop sp x (Imod i (int (mN sp)) + 1))
       else
         (if Imod i (int (mN sp)) = 0 \<and> \<not> mLoop sp then Some (Imod i (int (mN sp)))
          else GetIndex_loop sp x (Imod i (int (mN sp)) - 1))))"

text \<open>
  \<open>GetIndex\<close> reads the cache \<open>mLastIndex\<close>, which the constructor leaves
  uninitialised, and stores the index it returns there: the cache is the argument
  \<open>lastIndex\<close>, and the new cache is the result.
\<close>

definition GetIndex :: "'st Spline \<Rightarrow> int \<Rightarrow> real \<Rightarrow> nat option" where
  "GetIndex sp lastIndex x = do {
     x1 \<leftarrow> (if mLoop sp then LoopInRange sp x else Some x);
     i \<leftarrow> GetIndex_loop sp x1 lastIndex;
     Some (nat i)
   }"

definition GetSubRange :: "'st Spline \<Rightarrow> int \<Rightarrow> real \<Rightarrow> real option" where
  "GetSubRange sp index x = do {
     d \<leftarrow> (if mLoop sp then LoopInRange sp x else Some x);
     sr \<leftarrow> GetX sp index;
     er \<leftarrow> GetX sp (index + 1);
     Some ((d - sr) / (er - sr))
   }"

definition NearestNeighbor :: "'st \<Rightarrow> 'st \<Rightarrow> real \<Rightarrow> 'st" where
  "NearestNeighbor y0 y1 t = (if t < 0.5 then y0 else y1)"

text \<open>
  \<open>LocalSpline<NearestNeighbor>::Y\<close>; the result is the value and the new cache.
\<close>

definition Step_Y :: "Step \<Rightarrow> int \<Rightarrow> real \<Rightarrow> (real \<times> nat) option" where
  "Step_Y sp lastIndex x = do {
     i \<leftarrow> GetIndex sp lastIndex x;
     t \<leftarrow> GetSubRange sp (int i) x;
     y0 \<leftarrow> GetY sp (int i);
     y1 \<leftarrow> GetY sp (int i + 1);
     Some (NearestNeighbor y0 y1 t, i)
   }"

lemma Imod_range:
  assumes "0 < j"
  shows "0 \<le> Imod i j \<and> Imod i j < j"
proof -
  define m where "m = \<bar>i\<bar> mod j"
  have "0 \<le> m" "m < j" using assms by (simp_all add: m_def)
  moreover have "i smod j = sgn i * m" using assms by (simp add: signed_modulo_int_def m_def)
  ultimately show ?thesis
    using assms unfolding Imod_def
    by (cases "i < 0"; cases "i = 0") (auto simp: sgn_if)
qed

lemma Imod_id: "0 \<le> i \<Longrightarrow> i < j \<Longrightarrow> Imod i j = i"
  unfolding Imod_def signed_modulo_int_def by (auto simp: sgn_if)

definition unit_curve :: "'st Spline \<Rightarrow> nat \<Rightarrow> bool" where
  "unit_curve sp f =
     (0 < f \<and> mXs sp = knots f \<and> mN sp = f + 1 \<and> mLoop sp \<and> length (mYs sp) = f + 1)"

lemma knots_nth: "i < f \<Longrightarrow> knots f ! i = real i / real f" "knots f ! f = 1"
  by (simp_all add: knots_def nth_append)

lemma Mod_0: "Mod 0 0 1 = Some 0"
  by (simp add: Mod_def assert_def)

lemma Mod_1: "Mod 1 0 1 = Some 0"
  by (simp add: Mod_def assert_def)

lemma Imod_self: "Imod j j = 0"
  by (simp add: Imod_def signed_modulo_int_def)

lemma unit_index:
  assumes "unit_curve sp f" "0 \<le> k" "k \<le> int f"
  shows "Imod k (int (mN sp)) = k" "0 \<le> k" "k < int (mN sp)" "nat k < length (mXs sp)"
    "nat k < length (mYs sp)" "mXs sp ! nat k = knots f ! nat k"
  using assms by (simp_all add: unit_curve_def Imod_id)

lemma unit_GetX:
  assumes "unit_curve sp f" "0 \<le> k" "k \<le> int f"
  shows "GetX sp k = Some (knots f ! nat k)"
  using unit_index[OF assms]
  by (simp add: GetX_def assert_def vector_at_def)

lemma unit_GetY:
  assumes "unit_curve sp f" "0 \<le> k" "k \<le> int f"
  shows "GetY sp k = Some (mYs sp ! nat k)"
  using unit_index[OF assms]
  by (simp add: GetY_def assert_def vector_at_def)

lemma knots_pos: "0 < f \<Longrightarrow> 0 < k \<Longrightarrow> k \<le> f \<Longrightarrow> knots f ! k > 0"
  using knots_nth(1)[of k f] knots_nth(2)[of f] by (cases "k = f") auto

lemma unit_LoopInRange:
  assumes "unit_curve sp f"
  shows "LoopInRange sp x = Mod x 0 1"
  using assms knots_nth(1)[of 0 f] knots_nth(2)[of f]
  by (simp add: unit_curve_def LoopInRange_def vector_at_def)

lemma unit_loop_in_range:
  assumes u: "unit_curve sp f"
  shows "k \<le> f \<Longrightarrow> GetIndex_loop sp 0 (int k) = Some 0"
proof (induction k)
  case 0
  have id: "Imod 0 (int (mN sp)) = 0" using u by (simp add: Imod_id unit_curve_def)
  have x0: "GetX sp 0 = Some 0" using unit_GetX[OF u, of 0] u knots_nth(1)[of 0 f]
    by (simp add: unit_curve_def)
  have "knots f ! 1 > 0" using u knots_pos[of f 1] by (simp add: unit_curve_def)
  then obtain v where x1: "GetX sp 1 = Some v" "v > 0"
    using unit_GetX[OF u, of 1] u by (simp add: unit_curve_def)
  show ?case
    by (subst GetIndex_loop.simps) (simp add: id x0 x1)
next
  case (Suc k)
  define m where "m = int (Suc k)"
  have m: "0 \<le> m" "m \<le> int f" "nat m = Suc k" "m - 1 = int k"
    using Suc.prems by (simp_all add: m_def)
  have id: "Imod m (int (mN sp)) = m" by (rule unit_index(1)[OF u m(1,2)])
  have pos: "knots f ! Suc k > 0"
    using u Suc.prems knots_pos[of f "Suc k"] by (simp add: unit_curve_def)
  have cur: "GetX sp m = Some (knots f ! Suc k)"
    using unit_GetX[OF u m(1,2)] by (simp add: m(3))
  have "m + 1 \<le> int f \<or> m + 1 = int (mN sp)" using Suc.prems u by (auto simp: m_def unit_curve_def)
  then have nxt: "\<exists>v. GetX sp (m + 1) = Some v"
  proof
    assume "m + 1 \<le> int f"
    then show ?thesis using unit_GetX[OF u, of "m + 1"] m(1) by simp
  next
    assume "m + 1 = int (mN sp)"
    then have "Imod (m + 1) (int (mN sp)) = 0"
      by (simp only: Imod_self)
    then show ?thesis using u by (simp add: GetX_def assert_def vector_at_def unit_curve_def)
  qed
  then obtain v where nx: "GetX sp (m + 1) = Some v" by blast
  have lp: "mLoop sp" using u by (simp add: unit_curve_def)
  have "GetIndex_loop sp 0 m = GetIndex_loop sp 0 (int k)"
    by (subst GetIndex_loop.simps) (use pos lp in \<open>simp add: id cur nx m(4)\<close>)
  then show ?case using Suc by (simp add: m_def)
qed

lemma unit_loop:
  assumes u: "unit_curve sp f"
  shows "GetIndex_loop sp 0 i = Some 0"
proof -
  define k where "k = Imod i (int (mN sp))"
  have r: "0 \<le> k" "k < int (mN sp)" using Imod_range[of "int (mN sp)" i] u
    by (simp_all add: k_def unit_curve_def)
  then have kk: "Imod k (int (mN sp)) = k" by (simp add: Imod_id)
  note A = GetIndex_loop.simps[of sp 0 i, folded k_def]
  note B = GetIndex_loop.simps[of sp 0 k, unfolded kk]
  have "GetIndex_loop sp 0 i = GetIndex_loop sp 0 k"
    by (rule trans[OF A B[symmetric]])
  moreover have "GetIndex_loop sp 0 (int (nat k)) = Some 0"
    using r u by (intro unit_loop_in_range[OF u]) (simp add: unit_curve_def)
  ultimately show ?thesis using r by simp
qed

lemma unit_Y:
  assumes u: "unit_curve sp f" and x: "x = 0 \<or> x = 1"
  shows "Step_Y sp lastIndex x = Some (hd (mYs sp), 0)"
proof -
  have lp: "mLoop sp" using u by (simp add: unit_curve_def)
  have m: "LoopInRange sp x = Some 0"
    using x unit_LoopInRange[OF u] Mod_0 Mod_1 by auto
  have gi: "GetIndex sp lastIndex x = Some 0"
    by (simp add: GetIndex_def lp m unit_loop[OF u])
  have x0: "GetX sp 0 = Some 0" using unit_GetX[OF u, of 0] u knots_nth(1)[of 0 f]
    by (simp add: unit_curve_def)
  have "knots f ! 1 > 0" using u knots_pos[of f 1] by (simp add: unit_curve_def)
  then obtain v where x1: "GetX sp 1 = Some v" "v > 0"
    using unit_GetX[OF u, of 1] u by (simp add: unit_curve_def)
  have sr: "GetSubRange sp 0 x = Some 0"
    by (simp add: GetSubRange_def lp m x0 x1)
  have ne: "mYs sp \<noteq> []" using u by (auto simp: unit_curve_def)
  have y0: "GetY sp 0 = Some (hd (mYs sp))"
    using unit_GetY[OF u, of 0] ne by (simp add: hd_conv_nth)
  have y1: "GetY sp 1 = Some (mYs sp ! 1)"
    using unit_GetY[OF u, of 1] u by (simp add: unit_curve_def)
  show ?thesis
    by (simp add: Step_Y_def gi sr y0 y1 NearestNeighbor_def)
qed

section \<open>The states the loops reach\<close>

lemma one_thread_junctions:
  assumes "one_thread st = Some st'"
  shows "junctions (g st') = junctions (g st)"
proof -
  from assms obtain st1 st2 where s: "begin_thread st = Some st1" and t: "trace st1 = Some st2"
    and f: "finish st2 = Some st'"
    by (rule one_thread_steps)
  from trace_grows[OF t] have "junctions (g st2) = junctions (g st1)" by (auto simp: grows_def)
  then show ?thesis using start_eqs(1)[OF s] finish_g[OF f] by simp
qed

lemma one_thread_trav_inv:
  assumes "trav_inv st" "one_thread st = Some st'"
  shows "trav_inv st'"
proof -
  from assms(2) obtain st1 st2 where s: "begin_thread st = Some st1" and t: "trace st1 = Some st2"
    and f: "finish st2 = Some st'"
    by (rule one_thread_steps)
  show ?thesis
    using trace_inv[OF start_inv[OF assms(1) s] t] finish_g[OF f] by (simp add: trav_inv_def)
qed

lemma outer_head_inv:
  "outer_head strokes st \<Longrightarrow>
     trav_inv st \<and> junctions (g st) = junctions (Graph_init strokes)"
proof (induction rule: outer_head.induct)
  case outer_first
  then show ?case using trav_inv_init[of strokes] by (simp add: init_def)
next
  case (outer_next st st')
  then show ?case using one_thread_trav_inv[of st st'] one_thread_junctions[of st st'] by simp
qed

lemma inner_head_inv:
  "inner_head strokes st \<Longrightarrow>
     trav_inv st \<and> cur st \<in> set (unused (g st)) \<and>
     junctions (g st) = junctions (Graph_init strokes)"
proof (induction rule: inner_head.induct)
  case (inner_first st st1)
  then show ?case
    using outer_head_inv[of strokes st] start_inv[of st st1] start_eqs(1)[of st st1] by simp
next
  case (inner_next st st')
  then show ?case
    using visit_inv[of st st' True] visit_fields(2)[of st st' True] by simp
qed

lemma junctions_sorted_init: "junctions_sorted (junctions (Graph_init strokes))"
  using graph_inv_init[of strokes] by (simp add: graph_inv_def)

text \<open>
  The cyclic successor and predecessor of the first occurrence of \<open>v\<close> in a list: what
  the specification calls stepping clockwise and counterclockwise in the incident list.
\<close>

definition first_index :: "'a list \<Rightarrow> 'a \<Rightarrow> nat" where
  "first_index xs v = length (takeWhile (\<lambda>u. u \<noteq> v) xs)"

definition cyclic_succ :: "'a list \<Rightarrow> 'a \<Rightarrow> 'a" where
  "cyclic_succ xs v = xs ! ((first_index xs v + 1) mod length xs)"

definition cyclic_pred :: "'a list \<Rightarrow> 'a \<Rightarrow> 'a" where
  "cyclic_pred xs v = xs ! ((first_index xs v + length xs - 1) mod length xs)"

lemma std_find_first_index: "std_find xs v = first_index xs v"
  by (induction xs) (simp_all add: first_index_def)

lemma std_find_less: "v \<in> set xs \<Longrightarrow> std_find xs v < length xs"
  by (induction xs) auto

lemma FindNext_cyclic:
  assumes "v \<in> set (mids J)"
  shows "FindNext J v True = cyclic_succ (mids J) v" "FindNext J v False = cyclic_pred (mids J) v"
proof -
  let ?n = "length (mids J)" and ?i = "std_find (mids J) v"
  have i: "?i < ?n" by (rule std_find_less[OF assms])
  show "FindNext J v True = cyclic_succ (mids J) v"
    using i by (auto simp: FindNext_def Let_def cyclic_succ_def std_find_first_index[symmetric])
  have "(?i + ?n - 1) mod ?n = (if ?i = 0 then ?n - 1 else ?i - 1)"
  proof (cases "?i = 0")
    case True
    then show ?thesis using i by simp
  next
    case False
    then have "?i + ?n - 1 = (?i - 1) + ?n" by simp
    then show ?thesis using i False by (simp del: add_diff_assoc2)
  qed
  then show "FindNext J v False = cyclic_pred (mids J) v"
    using i by (auto simp: FindNext_def Let_def cyclic_pred_def std_find_first_index[symmetric])
qed

lemma visit_next:
  assumes v: "visit st = Some (st', True)"
    and J: "junctions (g st)
       (exit_junction ((cur st)\<lparr>dir := exit_dir (cur st)\<rparr>) (entry_junction (cur st))) = Some J"
  shows "mid (cur st') = FindNext J (mid (cur st)) (is_clockwise (exit_dir (cur st)))"
proof -
  from v obtain st2 st3 st5 st6 J' where
    m: "mark_above (st\<lparr>zs := zs st @ [if up st then 1 else 0]\<rparr>) = Some st2" and
    e1: "erase_cur st2 = Some st3" and
    e2: "erase_cur (st3\<lparr>cur := (cur st3)\<lparr>dir := exit_dir (cur st3)\<rparr>\<rparr>) = Some st5" and
    em: "emit st5 = Some st6" and
    jj: "junctions (g st6) (exit_junction (cur st6) (entry_junction (cur st3))) = Some J'" and
    nn: "case next_node (unused (g st6)) (FindNext J' (mid (cur st6)) (is_clockwise (dir (cur st6))))
        (exit_junction (cur st6) (entry_junction (cur st3))) (is_clockwise (dir (cur st6))) of
       None \<Rightarrow> st' = st6 \<and> \<not> True
     | Some n \<Rightarrow> st' = st6\<lparr>cur := n\<rparr> \<and> True"
    by (rule visit_steps)
  have c2: "cur st2 = cur st" "junctions (g st2) = junctions (g st)"
    by (subst mark_above_fields[OF m], simp)+
  have c3: "cur st3 = cur st" "junctions (g st3) = junctions (g st)"
    by (subst erase_cur_fields[OF e1], simp add: c2)+
  have c5: "cur st5 = (cur st)\<lparr>dir := exit_dir (cur st)\<rparr>" "junctions (g st5) = junctions (g st)"
    by (subst erase_cur_fields[OF e2], simp add: c3)+
  have c6: "cur st6 = (cur st)\<lparr>dir := exit_dir (cur st)\<rparr>" "junctions (g st6) = junctions (g st)"
    by (subst emit_fields(1)[OF em], simp add: c5)+
  have JJ: "J' = J" using jj J by (simp add: c6 c3)
  from nn obtain n where
    n: "next_node (unused (g st6)) (FindNext J' (mid (cur st6)) (is_clockwise (dir (cur st6))))
        (exit_junction (cur st6) (entry_junction (cur st3))) (is_clockwise (dir (cur st6))) = Some n"
    and s': "st' = st6\<lparr>cur := n\<rparr>"
    by (cases "next_node (unused (g st6)) (FindNext J' (mid (cur st6)) (is_clockwise (dir (cur st6))))
        (exit_junction (cur st6) (entry_junction (cur st3))) (is_clockwise (dir (cur st6)))") simp_all
  from next_node_mid[OF n] show ?thesis by (simp add: s' c6 JJ)
qed

lemma node_linked_junction:
  assumes "node_linked js c" "p = left c \<or> p = right c"
  shows "\<exists>J. js p = Some J \<and> mid c \<in> set (mids J)"
  using assms by (auto simp: node_linked_def)

lemma exit_junction_other:
  "type c \<noteq> Bounce \<Longrightarrow>
     exit_junction (c\<lparr>dir := d\<rparr>) (entry_junction c) \<in> {left c, right c} \<and>
     (left c \<noteq> right c \<longrightarrow> exit_junction (c\<lparr>dir := d\<rparr>) (entry_junction c) \<noteq> entry_junction c)"
  by (auto simp: exit_junction_def entry_junction_def)

lemma exit_junction_bounce:
  "type c = Bounce \<Longrightarrow> exit_junction (c\<lparr>dir := d\<rparr>) (entry_junction c) = entry_junction c"
  by (simp add: exit_junction_def)

section \<open>Three small meshes\<close>

text \<open>One stroke that is bounced off.\<close>

definition one_bounce :: "Stroke list" where
  "one_bounce = [Stroke (vec2 0 0) (vec2 2 0) Bounce]"

text \<open>Two strokes of non-zero length that cross at their common midpoint.\<close>

definition crossing :: "Stroke list" where
  "crossing = [Stroke (vec2 0 0) (vec2 2 2) Cross, Stroke (vec2 0 2) (vec2 2 0) Cross]"

text \<open>One stroke whose two endpoints coincide.\<close>

definition zero_length :: "Stroke list" where
  "zero_length = [Stroke (vec2 0 0) (vec2 0 0) Cross]"

definition bounce_node :: "Dir \<Rightarrow> Node" where
  "bounce_node d =
     \<lparr>mid = vec2 1 0, dir = d, type = Bounce, normal = vec2 0 2, left = vec2 0 0, right = vec2 2 0\<rparr>"

definition crossing_node :: "Dir \<Rightarrow> Node" where
  "crossing_node d =
     \<lparr>mid = vec2 1 1, dir = d, type = Cross, normal = vec2 (- 2) 2, left = vec2 0 0, right = vec2 2 2\<rparr>"

definition zero_node :: "Dir \<Rightarrow> Node" where
  "zero_node d =
     \<lparr>mid = vec2 0 0, dir = d, type = Cross, normal = vec2 0 0, left = vec2 0 0, right = vec2 0 0\<rparr>"

lemmas geometry_defs = GetMid_def vec2_add_def vec2_sub_def vec2_mul_def

lemmas graph_defs = Graph_init_def Graph_stroke_def Let_def junction_at_def sort_mids_def
  Node_new_def Node_less_def vec2_less_def

lemmas traversal_defs = visit_def mark_above_def erase_cur_def assert_def NodeSet_count_def
  NodeSet_find_def NodeSet_erase_def Node_equiv_iff entry_junction_def exit_dir_def emit_def
  exit_junction_def is_clockwise_def FindNext_def next_node_def init_def more_threads_def
  one_thread_def begin_thread_def NodeSet_begin_def finish_def front_def Hermite_new_def
  Step_new_def Spline_new_def Spline.extend_def Let_def Node_new_def

lemma node_simps [simp]:
  "mid (bounce_node d) = vec2 1 0" "dir (bounce_node d) = d" "type (bounce_node d) = Bounce"
  "left (bounce_node d) = vec2 0 0" "right (bounce_node d) = vec2 2 0"
  "normal (bounce_node d) = vec2 0 2" "(bounce_node d)\<lparr>dir := e\<rparr> = bounce_node e"
  "mid (crossing_node d) = vec2 1 1" "dir (crossing_node d) = d" "type (crossing_node d) = Cross"
  "left (crossing_node d) = vec2 0 0" "right (crossing_node d) = vec2 2 2"
  "normal (crossing_node d) = vec2 (- 2) 2" "(crossing_node d)\<lparr>dir := e\<rparr> = crossing_node e"
  "mid (zero_node d) = vec2 0 0" "dir (zero_node d) = d" "type (zero_node d) = Cross"
  "left (zero_node d) = vec2 0 0" "right (zero_node d) = vec2 0 0"
  "normal (zero_node d) = vec2 0 0" "(zero_node d)\<lparr>dir := e\<rparr> = zero_node e"
  by (simp_all add: bounce_node_def crossing_node_def zero_node_def)

lemma unused_one_bounce:
  "unused (Graph_init one_bounce) =
     [bounce_node fLeft, bounce_node fRight, bounce_node bLeft, bounce_node bRight]"
  by (simp add: one_bounce_def graph_defs geometry_defs bounce_node_def)

lemma junctions_one_bounce:
  "junctions (Graph_init one_bounce) (vec2 0 0) = Some \<lparr>position = vec2 0 0, mids = [vec2 1 0]\<rparr>"
  "junctions (Graph_init one_bounce) (vec2 2 0) = Some \<lparr>position = vec2 2 0, mids = [vec2 1 0]\<rparr>"
  by (simp_all add: one_bounce_def graph_defs geometry_defs)

lemma unused_crossing:
  "unused (Graph_init crossing) =
     [crossing_node fLeft, crossing_node fRight, crossing_node bLeft, crossing_node bRight]"
  by (simp add: crossing_def graph_defs geometry_defs crossing_node_def)

lemma junctions_crossing:
  "junctions (Graph_init crossing) (vec2 0 0) = Some \<lparr>position = vec2 0 0, mids = [vec2 1 1]\<rparr>"
  "junctions (Graph_init crossing) (vec2 2 2) = Some \<lparr>position = vec2 2 2, mids = [vec2 1 1]\<rparr>"
  by (simp_all add: crossing_def graph_defs geometry_defs)

lemma unused_zero_length:
  "unused (Graph_init zero_length) =
     [zero_node fLeft, zero_node fRight, zero_node bLeft, zero_node bRight]"
  by (simp add: zero_length_def graph_defs geometry_defs zero_node_def)

lemma junctions_zero_length:
  "junctions (Graph_init zero_length) (vec2 0 0) =
     Some \<lparr>position = vec2 0 0, mids = [vec2 0 0, vec2 0 0]\<rparr>"
  by (simp add: zero_length_def graph_defs geometry_defs)

text \<open>The three runs, by evaluation: the ports of each thread and its points.\<close>

lemma run_one_bounce:
  "\<exists>st. threads (init one_bounce) = Some st \<and>
     visited st = [[bounce_node fLeft, bounce_node bLeft], [bounce_node fRight, bounce_node bRight]] \<and>
     map mYs (ret st) = [[vec2 (1 / 2) 0, vec2 (1 / 2) 0], [vec2 (3 / 2) 0, vec2 (3 / 2) 0]] \<and>
     map mYs (retZs st) = [[0, 0], [0, 0]]"
  by (simp add: traversal_defs geometry_defs unused_one_bounce junctions_one_bounce)

lemma run_crossing:
  "\<exists>st. threads (init crossing) = Some st \<and>
     visited st =
       [[crossing_node fLeft, crossing_node bRight, crossing_node fRight, crossing_node bLeft]] \<and>
     map mYs (ret st) = [[vec2 1 1, vec2 1 1, vec2 1 1]] \<and>
     map mYs (retZs st) = [[0, 1, 0]]"
  by (simp add: traversal_defs geometry_defs unused_crossing junctions_crossing)

lemma run_zero_length:
  "\<exists>st. threads (init zero_length) = Some st \<and>
     visited st = [[zero_node fLeft, zero_node bRight, zero_node fRight, zero_node bLeft]] \<and>
     map mYs (ret st) = [[vec2 0 0, vec2 0 0, vec2 0 0]] \<and>
     map mYs (retZs st) = [[0, 1, 0]]"
  by (simp add: traversal_defs geometry_defs unused_zero_length junctions_zero_length)

section \<open>What a finished run holds\<close>

lemma length_concat_bound:
  "i < length xss \<Longrightarrow> length (xss ! i) \<le> length (concat xss)"
proof (induction xss arbitrary: i)
  case Nil
  then show ?case by simp
next
  case (Cons xs xss)
  then show ?case by (cases i) (auto intro: trans_le_add2)
qed

lemma run_ports:
  assumes "threads (init strokes) = Some st"
  shows "mset (concat (visited st)) = mset (unused (Graph_init strokes))"
    and "distinct (concat (visited st))"
    and "length (concat (visited st)) = 4 * card (GetMid ` set strokes)"
proof -
  note ri = run_inv[OF assms]
  show m: "mset (concat (visited st)) = mset (unused (Graph_init strokes))"
    using ri(1,2) by (simp add: outer_inv_def)
  have "distinct (unused (Graph_init strokes))"
    using graph_inv_init[of strokes] by (simp add: graph_inv_def sorted_nodes_distinct)
  then show "distinct (concat (visited st))"
    using m by (metis mset_eq_imp_distinct_iff)
  show "length (concat (visited st)) = 4 * card (GetMid ` set strokes)"
    using m length_unused_init[of strokes] by (metis mset_eq_length)
qed

lemma run_threads:
  assumes "threads (init strokes) = Some st"
  shows "length (ret st) = length (visited st)" "length (retZs st) = length (visited st)"
    and "i < length (visited st) \<Longrightarrow> closed_thread (ret st ! i) (retZs st ! i) (visited st ! i)"
  using run_inv(1)[OF assms] by (simp_all add: outer_inv_def)

lemma CreateThread_Some:
  "CreateThread strokes = Some art \<longleftrightarrow>
     (\<exists>st. threads (init strokes) = Some st \<and> art = \<lparr>mThreads = ret st, mZs = retZs st\<rparr>)"
  by (auto simp: CreateThread_def split: bind_splits)

lemma CreateThread_total:
  "length strokes < 2 ^ 29 \<Longrightarrow> \<exists>art. CreateThread strokes = Some art"
  using run_total[of strokes] by (auto simp: CreateThread_Some)

lemma run_small:
  assumes small: "length strokes < 2 ^ 29" and run: "threads (init strokes) = Some st"
    and i: "i < length (visited st)"
  shows "length (visited st ! i) < 2 ^ 31 - 2"
proof -
  have "length (visited st ! i) \<le> length (concat (visited st))"
    by (rule length_concat_bound[OF i])
  also have "\<dots> \<le> 4 * length strokes"
    using run_ports(3)[OF run] card_mids_le[of strokes] by simp
  finally show ?thesis using small by simp
qed

section \<open>The claims\<close>

text \<open>
  C3. Each of \<open>BounceDir\<close>, \<open>CrossDir\<close> and \<open>GlanceDir\<close> is an involution on the four
  direction tags, and none of them returns its argument unchanged.
\<close>

theorem direction_involutions:
  "BounceDir (BounceDir d) = d \<and> CrossDir (CrossDir d) = d \<and> GlanceDir (GlanceDir d) = d \<and>
   BounceDir d \<noteq> d \<and> CrossDir d \<noteq> d \<and> GlanceDir d \<noteq> d"
  by (cases d) simp_all

text \<open>
  C1, as stated, fails on two strokes of non-zero length that share their midpoint: the
  node set is keyed by midpoint and direction, so the second stroke adds no port, and
  the run consumes 4 ports where 4 times the number of strokes is 8.
\<close>

theorem crossing_ports_counterexample:
  "\<exists>st. threads (init crossing) = Some st \<and> length (concat (visited st)) = 4 \<and>
        4 * length crossing = 8 \<and>
        Stroke_a (crossing ! 0) \<noteq> Stroke_b (crossing ! 0) \<and>
        Stroke_a (crossing ! 1) \<noteq> Stroke_b (crossing ! 1)"
proof -
  from run_crossing obtain st where "threads (init crossing) = Some st"
    "visited st = [[crossing_node fLeft, crossing_node bRight, crossing_node fRight, crossing_node bLeft]]"
    by auto
  then show ?thesis by (auto simp: crossing_def)
qed

text \<open>
  C1, amended. A run on fewer than \<open>2 ^ 29\<close> strokes returns. Every run that returns has
  consumed every port of the graph exactly once: the ports visited by its threads are
  the ports of the graph, no port is visited twice (by one thread or by two), and their
  number is 4 times the number of distinct stroke midpoints, which is 4 times the number
  of strokes when no two strokes share a midpoint.
\<close>

theorem port_conservation:
  "(length strokes < 2 ^ 29 \<longrightarrow> (\<exists>st. threads (init strokes) = Some st)) \<and>
   (\<forall>st. threads (init strokes) = Some st \<longrightarrow>
      set (concat (visited st)) = set (unused (Graph_init strokes)) \<and>
      distinct (concat (visited st)) \<and>
      length (concat (visited st)) = 4 * card (GetMid ` set strokes) \<and>
      (distinct (map GetMid strokes) \<longrightarrow> length (concat (visited st)) = 4 * length strokes))"
proof (intro conjI impI allI)
  assume "length strokes < 2 ^ 29"
  then show "\<exists>st. threads (init strokes) = Some st" by (rule run_total)
next
  fix st assume run: "threads (init strokes) = Some st"
  show "set (concat (visited st)) = set (unused (Graph_init strokes))"
    using run_ports(1)[OF run] by (rule mset_eq_setD)
  show "distinct (concat (visited st))" by (rule run_ports(2)[OF run])
  show n: "length (concat (visited st)) = 4 * card (GetMid ` set strokes)"
    by (rule run_ports(3)[OF run])
  assume "distinct (map GetMid strokes)"
  then have "card (GetMid ` set strokes) = length strokes"
    using distinct_card[of "map GetMid strokes"] by simp
  then show "length (concat (visited st)) = 4 * length strokes" using n by simp
qed

theorem port_conservation_witness:
  "\<exists>st. threads (init one_bounce) = Some st \<and> distinct (map GetMid one_bounce) \<and>
        distinct (concat (visited st)) \<and> length (concat (visited st)) = 4 * length one_bounce"
proof -
  have d: "distinct (map GetMid one_bounce)" and s: "length one_bounce < 2 ^ 29"
    by (simp_all add: one_bounce_def)
  from port_conservation[of one_bounce] s obtain st where
    run: "threads (init one_bounce) = Some st" by blast
  with port_conservation[of one_bounce] d show ?thesis by blast
qed

text \<open>
  C2, as stated, fails on a single stroke of type \<open>Bounce\<close>: its first thread records
  one sample and consumes two ports, the entry node and the exit node.
\<close>

theorem bounce_samples_counterexample:
  "\<exists>st. threads (init one_bounce) = Some st \<and>
        length (mYs (ret st ! 0)) - 1 = 1 \<and> length (visited st ! 0) = 2"
proof -
  from run_one_bounce obtain st where st: "threads (init one_bounce) = Some st"
    "visited st = [[bounce_node fLeft, bounce_node bLeft], [bounce_node fRight, bounce_node bRight]]"
    "map mYs (ret st) = [[vec2 (1 / 2) 0, vec2 (1 / 2) 0], [vec2 (3 / 2) 0, vec2 (3 / 2) 0]]"
    by auto
  from st(3) have "length (ret st) = 2" using length_map[of mYs "ret st"] by simp
  then have "map mYs (ret st) ! 0 = mYs (ret st ! 0)" by simp
  with st(3) have "mYs (ret st ! 0) = [vec2 (1 / 2) 0, vec2 (1 / 2) 0]" by simp
  then show ?thesis using st(1,2) by simp
qed

text \<open>
  C2, amended. There is one list of consumed ports per produced thread. Each thread
  holds a positive number of samples followed by a closing sample equal to the first
  (points, tangents and over/under values alike), and the number of ports consumed while
  tracing it is twice its number of samples: every sample consumes an entry node and an
  exit node.
\<close>

theorem thread_samples:
  assumes "threads (init strokes) = Some st"
  shows "length (visited st) = length (ret st) \<and> length (retZs st) = length (ret st) \<and>
    (\<forall>i<length (ret st).
       \<exists>ts as z. ts \<noteq> [] \<and> length as = length ts \<and> length z = length ts \<and>
         mYs (ret st ! i) = ts @ [hd ts] \<and> mMs (ret st ! i) = as @ [hd as] \<and>
         mYs (retZs st ! i) = z @ [hd z] \<and>
         length (visited st ! i) = 2 * length ts)"
proof (intro conjI allI impI)
  note rt = run_threads[OF assms]
  show "length (visited st) = length (ret st)" "length (retZs st) = length (ret st)"
    using rt(1,2) by simp_all
  fix i assume "i < length (ret st)"
  then have "closed_thread (ret st ! i) (retZs st ! i) (visited st ! i)"
    using rt(1) rt(3)[of i] by simp
  then show "\<exists>ts as z. ts \<noteq> [] \<and> length as = length ts \<and> length z = length ts \<and>
         mYs (ret st ! i) = ts @ [hd ts] \<and> mMs (ret st ! i) = as @ [hd as] \<and>
         mYs (retZs st ! i) = z @ [hd z] \<and>
         length (visited st ! i) = 2 * length ts"
    unfolding closed_thread_def by blast
qed

theorem thread_samples_witness:
  "\<exists>st. threads (init one_bounce) = Some st \<and> length (visited st) = length (ret st) \<and>
        (\<exists>ts. ts \<noteq> [] \<and> mYs (ret st ! 0) = ts @ [hd ts] \<and>
              length (visited st ! 0) = 2 * length ts)"
proof -
  from run_one_bounce obtain st where st: "threads (init one_bounce) = Some st"
    "map mYs (ret st) = [[vec2 (1 / 2) 0, vec2 (1 / 2) 0], [vec2 (3 / 2) 0, vec2 (3 / 2) 0]]"
    by auto
  from st(2) have len: "length (ret st) = 2" using length_map[of mYs "ret st"] by simp
  from len have "0 < length (ret st)" by simp
  with thread_samples[OF st(1)] st(1) show ?thesis by blast
qed

text \<open>
  C10. Every \<open>Art\<close> that \<open>CreateThread\<close> returns holds as many step curves as threads,
  so the bound that \<open>GetZ\<close> asserts (the number of threads) is the bound of the vector
  it indexes; the two curves of a thread are built on the same knots and the same
  number of samples.
\<close>

theorem one_Z_per_thread:
  assumes "CreateThread strokes = Some art"
  shows "length (mZs art) = length (mThreads art) \<and>
    (\<forall>i. (GetZ art i \<noteq> None) = (i < GetThreadCount art)) \<and>
    (\<forall>i<GetThreadCount art.
       GetZ art i = Some (mZs art ! i) \<and> GetThread art i = Some (mThreads art ! i) \<and>
       mN (mZs art ! i) = mN (mThreads art ! i) \<and>
       mXs (mZs art ! i) = mXs (mThreads art ! i) \<and>
       length (mYs (mZs art ! i)) = length (mYs (mThreads art ! i)))"
proof -
  from assms obtain st where run: "threads (init strokes) = Some st"
    and art: "art = \<lparr>mThreads = ret st, mZs = retZs st\<rparr>"
    by (auto simp: CreateThread_Some)
  note rt = run_threads[OF run]
  have len: "length (mZs art) = length (mThreads art)" using rt(1,2) by (simp add: art)
  have "\<forall>i<GetThreadCount art.
       mN (mZs art ! i) = mN (mThreads art ! i) \<and> mXs (mZs art ! i) = mXs (mThreads art ! i) \<and>
       length (mYs (mZs art ! i)) = length (mYs (mThreads art ! i))"
  proof (intro allI impI)
    fix i assume "i < GetThreadCount art"
    then have "closed_thread (ret st ! i) (retZs st ! i) (visited st ! i)"
      using rt(1) rt(3)[of i] by (simp add: art GetThreadCount_def)
    then show "mN (mZs art ! i) = mN (mThreads art ! i) \<and>
       mXs (mZs art ! i) = mXs (mThreads art ! i) \<and>
       length (mYs (mZs art ! i)) = length (mYs (mThreads art ! i))"
      unfolding closed_thread_def by (auto simp: art)
  qed
  then show ?thesis
    using len by (auto simp: GetZ_def GetThread_def GetThreadCount_def assert_def vector_at_def)
qed

theorem one_Z_per_thread_witness:
  "\<exists>art. CreateThread one_bounce = Some art \<and> length (mZs art) = length (mThreads art) \<and>
         GetZ art 0 = Some (mZs art ! 0) \<and> GetZ art 1 = Some (mZs art ! 1) \<and> GetZ art 2 = None"
proof -
  from run_one_bounce obtain st where st: "threads (init one_bounce) = Some st"
    "map mYs (ret st) = [[vec2 (1 / 2) 0, vec2 (1 / 2) 0], [vec2 (3 / 2) 0, vec2 (3 / 2) 0]]"
    by auto
  from st(2) have len: "length (ret st) = 2" using length_map[of mYs "ret st"] by simp
  define art where "art = \<lparr>mThreads = ret st, mZs = retZs st\<rparr>"
  have c: "CreateThread one_bounce = Some art" using st(1) by (simp add: CreateThread_Some art_def)
  have n: "GetThreadCount art = 2" using len by (simp add: art_def GetThreadCount_def)
  from one_Z_per_thread[OF c] n have
    "length (mZs art) = length (mThreads art)" "GetZ art 0 = Some (mZs art ! 0)"
    "GetZ art 1 = Some (mZs art ! 1)" "GetZ art 2 = None"
    by (simp_all, (metis less_irrefl)?)
  with c show ?thesis by blast
qed

lemma graph_junctions_all:
  "s \<in> set strokes \<Longrightarrow>
     \<exists>A B. junctions (Graph_init strokes) (Stroke_a s) = Some A \<and>
           junctions (Graph_init strokes) (Stroke_b s) = Some B \<and>
           GetMid s \<in> set (mids A) \<and> GetMid s \<in> set (mids B)"
proof (induction strokes rule: rev_induct)
  case Nil
  then show ?case by simp
next
  case (snoc t strokes)
  have step: "Graph_init (strokes @ [t]) = Graph_stroke (Graph_init strokes) t"
    by (simp add: Graph_init_def)
  show ?case
  proof (cases "s = t")
    case True
    then show ?thesis
      using Graph_stroke_junctions_new[of "Graph_init strokes" t] unfolding step by blast
  next
    case False
    then have "s \<in> set strokes" using snoc.prems by simp
    from snoc.IH[OF this] obtain A B where
      A: "junctions (Graph_init strokes) (Stroke_a s) = Some A" "GetMid s \<in> set (mids A)" and
      B: "junctions (Graph_init strokes) (Stroke_b s) = Some B" "GetMid s \<in> set (mids B)"
      by blast
    from Graph_stroke_junctions_old[OF A(1), of t] Graph_stroke_junctions_old[OF B(1), of t] A(2) B(2)
    show ?thesis unfolding step by blast
  qed
qed

lemma mids_unused_init: "mid ` set (unused (Graph_init strokes)) = GetMid ` set strokes"
  using graph_inv_init[of strokes] by (simp add: graph_inv_def)

text \<open>
  C4, as stated, fails: the constructor of the graph has no check of its input. On one
  stroke whose endpoints coincide \<open>CreateThread\<close> returns an \<open>Art\<close> of one thread.
\<close>

theorem zero_length_counterexample:
  "\<exists>art. CreateThread zero_length = Some art \<and> GetThreadCount art = 1 \<and>
         Stroke_a (zero_length ! 0) = Stroke_b (zero_length ! 0)"
proof -
  from run_zero_length obtain st where st: "threads (init zero_length) = Some st"
    "map mYs (ret st) = [[vec2 0 0, vec2 0 0, vec2 0 0]]"
    by auto
  from st(2) have "length (ret st) = 1" using length_map[of mYs "ret st"] by simp
  then show ?thesis
    using st(1) by (simp add: CreateThread_Some GetThreadCount_def zero_length_def)
qed

text \<open>
  C4, amended. The construction of the graph rejects nothing: on every list of fewer
  than \<open>2 ^ 29\<close> strokes \<open>CreateThread\<close> returns an \<open>Art\<close>, whether or not a stroke has
  coincident endpoints or occurs twice. Every stroke is handled alike: the midpoints of
  the ports are the midpoints of the strokes, and the midpoint of each stroke is in the
  incident lists of the junctions at its two endpoints.
\<close>

theorem construction_accepts:
  assumes "length strokes < 2 ^ 29"
  shows "(\<exists>art. CreateThread strokes = Some art) \<and>
    mid ` set (unused (Graph_init strokes)) = GetMid ` set strokes \<and>
    (\<forall>s\<in>set strokes.
       \<exists>A B. junctions (Graph_init strokes) (Stroke_a s) = Some A \<and>
             junctions (Graph_init strokes) (Stroke_b s) = Some B \<and>
             GetMid s \<in> set (mids A) \<and> GetMid s \<in> set (mids B))"
  using CreateThread_total[OF assms] mids_unused_init[of strokes] graph_junctions_all[of _ strokes]
  by blast

theorem construction_accepts_witness:
  "length zero_length < 2 ^ 29 \<and> (\<exists>art. CreateThread zero_length = Some art) \<and>
   mid ` set (unused (Graph_init zero_length)) = {vec2 0 0}"
proof -
  have s: "length zero_length < 2 ^ 29" by (simp add: zero_length_def)
  have "GetMid ` set zero_length = {vec2 0 0}" by (simp add: zero_length_def geometry_defs)
  with construction_accepts[OF s] s show ?thesis by simp
qed



text \<open>The first two states at the top of the inner loop for the two crossing strokes.\<close>

definition crossing_first :: State where
  "crossing_first =
     (init crossing)\<lparr>thread := [], angles := [], zs := [], ports := [], up := False,
                      cur := crossing_node fLeft\<rparr>"

lemma more_threads_crossing: "more_threads (init crossing)"
  by (simp add: more_threads_def init_def unused_crossing)

lemma begin_crossing: "begin_thread (init crossing) = Some crossing_first"
  by (simp add: begin_thread_def NodeSet_begin_def init_def unused_crossing crossing_first_def)

lemma inner_head_crossing_first: "inner_head crossing crossing_first"
  by (rule inner_first[OF outer_first more_threads_crossing begin_crossing])

lemma visit_crossing_first:
  "\<exists>st. visit crossing_first = Some (st, True) \<and>
        unusedUp st = [crossing_node fRight, crossing_node bLeft] \<and>
        unused (g st) = [crossing_node fRight, crossing_node bLeft] \<and>
        cur st = crossing_node fRight \<and> up st"
  by (simp add: crossing_first_def traversal_defs geometry_defs unused_crossing junctions_crossing
      Node_less_def)

text \<open>
  C6. When the outer loop starts a thread, the starting node is the least node of the
  set \<open>unusedUp\<close> of nodes crossed from below if that set is not empty, and the least
  node of \<open>g.unused\<close> otherwise; \<open>up\<close> starts as true exactly in the first case.
\<close>

theorem thread_start:
  assumes "outer_head strokes st" "more_threads st"
  shows "\<exists>st1. begin_thread st = Some st1 \<and>
    (unusedUp st \<noteq> [] \<longrightarrow>
       up st1 \<and> cur st1 \<in> set (unusedUp st) \<and> (\<forall>n\<in>set (unusedUp st). \<not> Node_less n (cur st1))) \<and>
    (unusedUp st = [] \<longrightarrow>
       \<not> up st1 \<and> cur st1 \<in> set (unused (g st)) \<and>
       (\<forall>n\<in>set (unused (g st)). \<not> Node_less n (cur st1)))"
proof -
  from start_total[OF assms(2)] obtain st1 where b: "begin_thread st = Some st1" by blast
  note sf = start_fields[OF b]
  note se = start_eqs[OF b]
  have inv: "trav_inv st" using outer_head_inv[OF assms(1)] by simp
  have 1: "up st1 \<and> cur st1 \<in> set (unusedUp st) \<and> (\<forall>n\<in>set (unusedUp st). \<not> Node_less n (cur st1))"
    if ne: "unusedUp st \<noteq> []"
  proof -
    from ne obtain n ns where u: "unusedUp st = n # ns" by (cases "unusedUp st") auto
    have "sorted_wrt Node_less (n # ns)" using inv by (simp add: trav_inv_def u)
    from hd_sorted_nodes_least[OF this] show ?thesis using sf(2)[OF ne] se(10) by (simp add: u)
  qed
  have 2: "\<not> up st1 \<and> cur st1 \<in> set (unused (g st)) \<and>
       (\<forall>n\<in>set (unused (g st)). \<not> Node_less n (cur st1))"
    if e: "unusedUp st = []"
  proof -
    from sf(3)[OF e] obtain n ns where u: "unused (g st) = n # ns" "cur st1 = n"
      by (cases "unused (g st)") auto
    have "sorted_wrt Node_less (n # ns)" using inv by (simp add: trav_inv_def u)
    from hd_sorted_nodes_least[OF this] show ?thesis using se(10) e by (simp add: u)
  qed
  from b 1 2 show ?thesis by blast
qed

theorem thread_start_witness:
  "outer_head crossing (init crossing) \<and> more_threads (init crossing) \<and>
   (\<exists>st1. begin_thread (init crossing) = Some st1 \<and> \<not> up st1 \<and>
          cur st1 \<in> set (unused (g (init crossing))))"
proof -
  have "unusedUp (init crossing) = []" by (simp add: init_def)
  with thread_start[OF outer_first more_threads_crossing] outer_first[of crossing]
    more_threads_crossing
  show ?thesis by auto
qed

text \<open>
  C7. In every run of the inner loop's body, with \<open>c\<close> the entry node: the entry junction
  is one of the two junctions of the stroke; for a stroke that is not of type \<open>Bounce\<close>
  the exit junction is one of the two as well, and it is the other one when the two
  differ; for \<open>Bounce\<close> it is the entry junction. The exit junction's incident list is
  sorted by angle and holds the midpoint of \<open>c\<close>, and \<open>FindNext\<close> returns the cyclic
  successor of that midpoint when the exit direction is \<open>fLeft\<close> or \<open>bRight\<close> and the
  cyclic predecessor otherwise; the node the loop continues with lies at that midpoint.
\<close>

theorem inner_step:
  assumes "inner_head strokes st"
  shows "let c = cur st; e = entry_junction c; x = c\<lparr>dir := exit_dir c\<rparr>;
             j = exit_junction x e
         in (e = left c \<or> e = right c) \<and>
            (type c \<noteq> Bounce \<longrightarrow> (j = left c \<or> j = right c) \<and> (left c \<noteq> right c \<longrightarrow> j \<noteq> e)) \<and>
            (type c = Bounce \<longrightarrow> j = e) \<and>
            (\<exists>J. junctions (g st) j = Some J \<and> sorted (map (VecAngle j) (mids J)) \<and>
                 mid c \<in> set (mids J) \<and>
                 FindNext J (mid c) (is_clockwise (dir x)) =
                   (if dir x = fLeft \<or> dir x = bRight then cyclic_succ (mids J) (mid c)
                    else cyclic_pred (mids J) (mid c)) \<and>
                 (\<forall>st'. visit st = Some (st', True) \<longrightarrow>
                    mid (cur st') = FindNext J (mid c) (is_clockwise (dir x))))"
proof -
  define c where "c = cur st"
  define e where "e = entry_junction c"
  define x where "x = c\<lparr>dir := exit_dir c\<rparr>"
  define j where "j = exit_junction x e"
  note ih = inner_head_inv[OF assms]
  have inv: "trav_inv st" and cin: "cur st \<in> set (unused (g st))" using ih by simp_all
  have "\<forall>n\<in>set (unused (g st)). node_linked (junctions (g st)) n"
    using inv by (simp add: trav_inv_def)
  then have lnk: "node_linked (junctions (g st)) c"
    using cin unfolding c_def by blast
  have e: "e = left c \<or> e = right c"
    unfolding e_def by (rule entry_junction_cases)
  have j: "j = left c \<or> j = right c"
    using exit_junction_cases[of x e] e by (auto simp: j_def x_def)
  have nb: "type c \<noteq> Bounce \<longrightarrow> (j = left c \<or> j = right c) \<and> (left c \<noteq> right c \<longrightarrow> j \<noteq> e)"
    using exit_junction_other[of c "exit_dir c"] by (auto simp: j_def x_def e_def)
  have b: "type c = Bounce \<longrightarrow> j = e"
    using exit_junction_bounce[of c "exit_dir c"] by (simp add: j_def x_def e_def)
  from node_linked_junction[OF lnk j] obtain J where
    J: "junctions (g st) j = Some J" "mid c \<in> set (mids J)" by blast
  have srt: "sorted (map (VecAngle j) (mids J))"
    using junctions_sorted_init[of strokes] J(1) ih by (auto simp: junctions_sorted_def)
  have fn: "FindNext J (mid c) (is_clockwise (dir x)) =
      (if dir x = fLeft \<or> dir x = bRight then cyclic_succ (mids J) (mid c)
       else cyclic_pred (mids J) (mid c))"
    using FindNext_cyclic[OF J(2)] by (auto simp: is_clockwise_def)
  have nx: "\<forall>st'. visit st = Some (st', True) \<longrightarrow>
      mid (cur st') = FindNext J (mid c) (is_clockwise (dir x))"
    using visit_next[of st _ J] J(1) by (simp add: j_def x_def e_def c_def)
  from e nb b J srt fn nx show ?thesis
    unfolding Let_def c_def[symmetric] e_def[symmetric] x_def[symmetric] j_def[symmetric]
    by blast
qed

theorem inner_step_witness:
  "inner_head crossing crossing_first \<and> type (cur crossing_first) = Cross \<and>
   entry_junction (cur crossing_first) = vec2 0 0 \<and>
   exit_junction ((cur crossing_first)\<lparr>dir := exit_dir (cur crossing_first)\<rparr>)
     (entry_junction (cur crossing_first)) = vec2 2 2 \<and>
   (\<exists>J. junctions (g crossing_first) (vec2 2 2) = Some J \<and>
        FindNext J (vec2 1 1) True = cyclic_succ (mids J) (vec2 1 1))"
proof -
  have c: "cur crossing_first = crossing_node fLeft" by (simp add: crossing_first_def)
  have e: "entry_junction (crossing_node fLeft) = vec2 0 0"
    "exit_dir (crossing_node fLeft) = bRight"
    "exit_junction (crossing_node bRight) (vec2 0 0) = vec2 2 2"
    by (simp_all add: entry_junction_def exit_dir_def exit_junction_def)
  from inner_step[OF inner_head_crossing_first]
  have "\<exists>J. junctions (g crossing_first) (vec2 2 2) = Some J \<and>
        FindNext J (vec2 1 1) True = cyclic_succ (mids J) (vec2 1 1)"
    by (simp add: Let_def c e is_clockwise_def) blast
  then show ?thesis using inner_head_crossing_first by (simp add: c e)
qed

text \<open>
  C9. Whenever the condition of the outer loop or the top of the inner loop is reached,
  every node of \<open>unusedUp\<close> is a node of \<open>g.unused\<close>. Hence the outer loop goes on exactly
  when \<open>g.unused\<close> is not empty, the node a thread starts with is in \<open>g.unused\<close> (the
  assertion before its erasure holds), the nodes the body adds to \<open>unusedUp\<close> are nodes
  of \<open>g.unused\<close>, and the body, which erases each node from both sets, keeps the inclusion.
\<close>

theorem unusedUp_subset:
  "(outer_head strokes st \<longrightarrow>
      set (unusedUp st) \<subseteq> set (unused (g st)) \<and>
      more_threads st = (unused (g st) \<noteq> []) \<and>
      (more_threads st \<longrightarrow>
         (\<exists>st1. begin_thread st = Some st1 \<and> NodeSet_count (unused (g st1)) (cur st1) \<noteq> 0))) \<and>
   (inner_head strokes st \<longrightarrow>
      set (unusedUp st) \<subseteq> set (unused (g st)) \<and>
      NodeSet_count (unused (g st)) (cur st) \<noteq> 0 \<and>
      (\<exists>st1. mark_above st = Some st1 \<and> set (unusedUp st1) \<subseteq> set (unused (g st1))) \<and>
      (\<exists>st' k. visit st = Some (st', k) \<and> set (unusedUp st') \<subseteq> set (unused (g st'))))"
proof (intro conjI impI)
  assume oh: "outer_head strokes st"
  then have inv: "trav_inv st" using outer_head_inv by simp
  then show sub: "set (unusedUp st) \<subseteq> set (unused (g st))" by (simp add: trav_inv_def)
  then show "more_threads st = (unused (g st) \<noteq> [])"
    by (cases "unusedUp st") (auto simp: more_threads_def)
  assume more: "more_threads st"
  from start_total[OF more] obtain st1 where b: "begin_thread st = Some st1" by blast
  from start_inv(2)[OF inv b] have "NodeSet_count (unused (g st1)) (cur st1) \<noteq> 0"
    by (rule member_count)
  with b show "\<exists>st1. begin_thread st = Some st1 \<and> NodeSet_count (unused (g st1)) (cur st1) \<noteq> 0"
    by blast
next
  assume ih: "inner_head strokes st"
  then have inv: "trav_inv st" and c: "cur st \<in> set (unused (g st))"
    using inner_head_inv by simp_all
  show "set (unusedUp st) \<subseteq> set (unused (g st))" using inv by (simp add: trav_inv_def)
  show "NodeSet_count (unused (g st)) (cur st) \<noteq> 0" by (rule member_count[OF c])
  from mark_above_ok[OF inv c] obtain uu where
    "mark_above st = Some (st\<lparr>unusedUp := uu\<rparr>)" "set uu \<subseteq> set (unused (g st))" by blast
  then show "\<exists>st1. mark_above st = Some st1 \<and> set (unusedUp st1) \<subseteq> set (unused (g st1))"
    by auto
  from visit_total[OF inv c] obtain st' k where v: "visit st = Some (st', k)" by blast
  from visit_inv(1)[OF inv c v] have "set (unusedUp st') \<subseteq> set (unused (g st'))"
    by (simp add: trav_inv_def)
  with v show "\<exists>st' k. visit st = Some (st', k) \<and> set (unusedUp st') \<subseteq> set (unused (g st'))"
    by blast
qed

theorem unusedUp_subset_witness:
  "\<exists>st. inner_head crossing st \<and> unusedUp st = [crossing_node fRight, crossing_node bLeft] \<and>
        set (unusedUp st) \<subseteq> set (unused (g st)) \<and>
        NodeSet_count (unused (g st)) (cur st) \<noteq> 0"
proof -
  from visit_crossing_first obtain st where
    v: "visit crossing_first = Some (st, True)" and
    u: "unusedUp st = [crossing_node fRight, crossing_node bLeft]"
    by auto
  have ih: "inner_head crossing st" by (rule inner_next[OF inner_head_crossing_first v])
  with unusedUp_subset[of crossing st] u show ?thesis by blast
qed

lemma closed_thread_unit:
  assumes ct: "closed_thread T Z ps" and small: "length ps < 2 ^ 31 - 2"
  shows "\<exists>f. unit_curve Z f"
  using ct unfolding closed_thread_def
proof (elim exE conjE)
  fix ts :: "vec2 list" and z :: "real list"
  assume f: "ts \<noteq> []" "length z = length ts" "length ps = 2 * length ts"
    and Z0: "mYs Z = z @ [hd z]" "mXs Z = knots (length ts)"
      "mN T = (length ts + 1) mod 2 ^ 30" "mN Z = mN T" "mLoop Z"
  have "length ts + 1 < 2 ^ 30" using small f(3) by simp
  then have "mN Z = length ts + 1" using Z0(3,4) by simp
  then have "unit_curve Z (length ts)"
    using f Z0 by (simp add: unit_curve_def)
  then show ?thesis ..
qed

lemma closed_thread_ends:
  assumes "closed_thread T Z ps"
  shows "last (mYs T) = hd (mYs T)" "last (mMs T) = hd (mMs T)" "last (mYs Z) = hd (mYs Z)"
proof -
  from assms obtain ts as z where
    e: "ts \<noteq> []" "length as = length ts" "length z = length ts"
    "mYs T = ts @ [hd ts]" "mMs T = as @ [hd as]" "mYs Z = z @ [hd z]"
    unfolding closed_thread_def by blast
  then have "as \<noteq> []" "z \<noteq> []" by auto
  with e show "last (mYs T) = hd (mYs T)" "last (mMs T) = hd (mMs T)" "last (mYs Z) = hd (mYs Z)"
    by simp_all
qed

text \<open>
  C8. In every thread of a returned \<open>Art\<close> the first and the last sample are equal:
  points, tangents and over/under values. On fewer than \<open>2 ^ 29\<close> strokes (the knots
  of a thread then fit the 30 bits of \<open>mN\<close>) the step curve of the thread, evaluated at
  0 and at 1, returns that first over/under value, whatever the cached index is.
\<close>

theorem thread_closure:
  assumes "CreateThread strokes = Some art" "i < GetThreadCount art"
  shows "last (mYs (mThreads art ! i)) = hd (mYs (mThreads art ! i)) \<and>
    last (mMs (mThreads art ! i)) = hd (mMs (mThreads art ! i)) \<and>
    last (mYs (mZs art ! i)) = hd (mYs (mZs art ! i)) \<and>
    (length strokes < 2 ^ 29 \<longrightarrow>
       (\<forall>c0 c1. Step_Y (mZs art ! i) c0 0 = Some (hd (mYs (mZs art ! i)), 0) \<and>
                Step_Y (mZs art ! i) c1 1 = Some (hd (mYs (mZs art ! i)), 0) \<and>
                map_option fst (Step_Y (mZs art ! i) c0 0) =
                map_option fst (Step_Y (mZs art ! i) c1 1)))"
proof -
  from assms(1) obtain st where run: "threads (init strokes) = Some st"
    and art: "art = \<lparr>mThreads = ret st, mZs = retZs st\<rparr>"
    by (auto simp: CreateThread_Some)
  note rt = run_threads[OF run]
  have i: "i < length (visited st)" using assms(2) rt(1) by (simp add: art GetThreadCount_def)
  have ct: "closed_thread (mThreads art ! i) (mZs art ! i) (visited st ! i)"
    using rt(3)[OF i] by (simp add: art)
  note ends = closed_thread_ends[OF ct]
  have "\<forall>c0 c1. Step_Y (mZs art ! i) c0 0 = Some (hd (mYs (mZs art ! i)), 0) \<and>
                Step_Y (mZs art ! i) c1 1 = Some (hd (mYs (mZs art ! i)), 0) \<and>
                map_option fst (Step_Y (mZs art ! i) c0 0) =
                map_option fst (Step_Y (mZs art ! i) c1 1)"
    if small: "length strokes < 2 ^ 29"
  proof -
    from closed_thread_unit[OF ct run_small[OF small run i]] obtain f where
      u: "unit_curve (mZs art ! i) f" by blast
    show ?thesis using unit_Y[OF u] by simp
  qed
  with ends show ?thesis by blast
qed

theorem thread_closure_witness:
  "\<exists>art. CreateThread crossing = Some art \<and> 0 < GetThreadCount art \<and>
     length crossing < 2 ^ 29 \<and>
     last (mYs (mZs art ! 0)) = hd (mYs (mZs art ! 0)) \<and>
     Step_Y (mZs art ! 0) 5 0 = Step_Y (mZs art ! 0) (- 3) 1"
proof -
  from run_crossing obtain st where st: "threads (init crossing) = Some st"
    "map mYs (ret st) = [[vec2 1 1, vec2 1 1, vec2 1 1]]"
    by auto
  from st(2) have len: "length (ret st) = 1" using length_map[of mYs "ret st"] by simp
  define art where "art = \<lparr>mThreads = ret st, mZs = retZs st\<rparr>"
  have c: "CreateThread crossing = Some art" using st(1) by (simp add: CreateThread_Some art_def)
  have n: "0 < GetThreadCount art" using len by (simp add: art_def GetThreadCount_def)
  have s: "length crossing < 2 ^ 29" by (simp add: crossing_def)
  from thread_closure[OF c n] s have
    "last (mYs (mZs art ! 0)) = hd (mYs (mZs art ! 0))"
    "Step_Y (mZs art ! 0) 5 0 = Step_Y (mZs art ! 0) (- 3) 1"
    by simp_all
  with c n s show ?thesis by blast
qed

end
